theory Spec2Isabelle
  imports Complex_Main
begin

section \<open>JavaScript values\<close>

text \<open>
  A JavaScript string is a sequence of UTF-16 code units; a code unit is a natural number.
  Field values of the records the services handle are primitive values. A record is an
  object: its own properties in insertion order. Reading a missing property gives
  \<open>undefined\<close>. Numbers are integers of the safe range, with the two non-finite results
  the code can produce kept apart in \<open>jsnum\<close>.
\<close>

type_synonym jstring = "nat list"

definition ascii :: "string \<Rightarrow> jstring" where
  "ascii s = map of_char s"

datatype jsval = JUndefined | JNull | JBool bool | JNum int | JStr jstring

datatype jsnum = Fin int | Infinity | NaN

type_synonym obj = "(string \<times> jsval) list"

datatype error = TypeError | SourceError string | InvalidStructure | NotFound | MissingRowIndex

definition field :: "obj \<Rightarrow> string \<Rightarrow> jsval" where
  "field ob k = (case map_of ob k of None \<Rightarrow> JUndefined | Some v \<Rightarrow> v)"

fun assign :: "string \<Rightarrow> jsval \<Rightarrow> obj \<Rightarrow> obj" where
  "assign k v [] = [(k, v)]"
| "assign k v (p # ob) = (if fst p = k then (k, v) # ob else p # assign k v ob)"

definition spread :: "obj \<Rightarrow> obj \<Rightarrow> obj" where
  "spread a b = fold (\<lambda>p. assign (fst p) (snd p)) b a"

fun truthy :: "jsval \<Rightarrow> bool" where
  "truthy JUndefined = False"
| "truthy JNull = False"
| "truthy (JBool b) = b"
| "truthy (JNum n) = (n \<noteq> 0)"
| "truthy (JStr s) = (s \<noteq> [])"

definition js_or :: "jsval \<Rightarrow> jsval \<Rightarrow> jsval" where
  "js_or a b = (if truthy a then a else b)"

subsection \<open>Strings\<close>

text \<open>
  \<open>String.prototype.toLowerCase\<close> is a builtin of the engine: it applies the Unicode
  case mapping, with its context rule for the final sigma, and the sources do not
  contain it. Every function below that lower-cases takes it as the parameter
  \<open>toLowerCase\<close>. On a string whose only cased characters are Basic Latin letters the
  builtin gives \<open>basic_latin_lower\<close>: the letters A to Z become a to z, and every other
  code unit of such a string (digits, punctuation, white space, the CJK ideographs of the
  company names) is kept.
\<close>

definition lower_unit :: "nat \<Rightarrow> nat" where
  "lower_unit u = (if 65 \<le> u \<and> u \<le> 90 then u + 32 else u)"

definition basic_latin_lower :: "jstring \<Rightarrow> jstring" where
  "basic_latin_lower s = map lower_unit s"

fun startsWith :: "jstring \<Rightarrow> jstring \<Rightarrow> bool" where
  "startsWith s [] = True"
| "startsWith [] (c # t) = False"
| "startsWith (x # s) (c # t) = (x = c \<and> startsWith s t)"

fun js_includes :: "jstring \<Rightarrow> jstring \<Rightarrow> bool" where
  "js_includes [] t = (t = [])"
| "js_includes (x # s) t = (startsWith (x # s) t \<or> js_includes s t)"

subsection \<open>Arrays\<close>

text \<open>\<open>Array.prototype.slice(start, end)\<close> with its treatment of negative indices.\<close>

definition js_slice :: "'a list \<Rightarrow> int \<Rightarrow> int \<Rightarrow> 'a list" where
  "js_slice xs start fin =
     (let len = int (length xs);
          k = (if start < 0 then max (len + start) 0 else min start len);
          final = (if fin < 0 then max (len + fin) 0 else min fin len)
      in take (nat (final - k)) (drop (nat k) xs))"

text \<open>
  \<open>Array.prototype.sort(cmp)\<close> is a builtin of the engine as well, and every function
  below that sorts takes it as the parameter \<open>arraySort\<close>. The language fixes its result
  when the comparator is consistent on the elements: the sort is stable, an element \<open>x\<close>
  stays in front of \<open>y\<close> unless the comparator result is positive, and a \<open>NaN\<close> result
  counts as \<open>+0\<close>. The result of a stable sort is then unique, and \<open>array_sort\<close> computes
  it by insertion. For a comparator that is not consistent the language leaves the order
  to the engine; \<open>array_sort\<close> is then one of the permitted orders and need not be the
  engine's.
\<close>

fun keeps_order :: "jsnum \<Rightarrow> bool" where
  "keeps_order (Fin n) = (n \<le> 0)"
| "keeps_order NaN = True"
| "keeps_order Infinity = False"

fun insert_by :: "('a \<Rightarrow> 'a \<Rightarrow> jsnum) \<Rightarrow> 'a \<Rightarrow> 'a list \<Rightarrow> 'a list" where
  "insert_by cmp x [] = [x]"
| "insert_by cmp x (y # ys) =
     (if keeps_order (cmp x y) then x # y # ys else y # insert_by cmp x ys)"

definition array_sort :: "('a \<Rightarrow> 'a \<Rightarrow> jsnum) \<Rightarrow> 'a list \<Rightarrow> 'a list" where
  "array_sort cmp xs = foldr (insert_by cmp) xs []"

fun filterE :: "('a \<Rightarrow> error + bool) \<Rightarrow> 'a list \<Rightarrow> error + 'a list" where
  "filterE p [] = Inr []"
| "filterE p (x # xs) =
     (case p x of
        Inl e \<Rightarrow> Inl e
      | Inr b \<Rightarrow> (case filterE p xs of
                    Inl e \<Rightarrow> Inl e
                  | Inr ys \<Rightarrow> Inr (if b then x # ys else ys)))"

text \<open>\<open>new Map(pairs)\<close>: a later pair with the same key replaces an earlier one.\<close>

definition js_Map :: "(jsval \<times> jsval) list \<Rightarrow> (jsval \<rightharpoonup> jsval)" where
  "js_Map pairs = map_of (rev pairs)"

definition map_has :: "(jsval \<rightharpoonup> jsval) \<Rightarrow> jsval \<Rightarrow> bool" where
  "map_has m k = (m k \<noteq> None)"

definition map_get :: "(jsval \<rightharpoonup> jsval) \<Rightarrow> jsval \<Rightarrow> jsval" where
  "map_get m k = (case m k of None \<Rightarrow> JUndefined | Some v \<Rightarrow> v)"

subsection \<open>Text search and date comparison shared by the services\<close>

text \<open>
  One disjunct \<open>(c.f && c.f.toLowerCase().includes(searchTerm))\<close> of a filter callback:
  a falsy field does not match, a string is searched, any other truthy value has no
  \<open>toLowerCase\<close> method and the call throws.
\<close>

definition field_includes :: "(jstring \<Rightarrow> jstring) \<Rightarrow> jsval \<Rightarrow> jstring \<Rightarrow> error + bool" where
  "field_includes toLowerCase v searchTerm =
     (if \<not> truthy v then Inr False
      else (case v of JStr s \<Rightarrow> Inr (js_includes (toLowerCase s) searchTerm)
                    | _ \<Rightarrow> Inl TypeError))"

text \<open>The chain \<open>a || b || ...\<close> of such disjuncts, evaluated left to right.\<close>

fun any_field :: "(jstring \<Rightarrow> jstring) \<Rightarrow> obj \<Rightarrow> string list \<Rightarrow> jstring \<Rightarrow> error + bool" where
  "any_field toLowerCase c [] searchTerm = Inr False"
| "any_field toLowerCase c (f # fs) searchTerm =
     (case field_includes toLowerCase (field c f) searchTerm of
        Inl e \<Rightarrow> Inl e
      | Inr True \<Rightarrow> Inr True
      | Inr False \<Rightarrow> any_field toLowerCase c fs searchTerm)"

text \<open>
  The comparator of the guarded descending date sorts. \<open>parseDate\<close> is the engine's
  \<open>new Date(v).getTime()\<close>, with \<open>None\<close> for \<open>NaN\<close> (an invalid date).
\<close>

definition cmpDateDesc :: "(jsval \<Rightarrow> int option) \<Rightarrow> jsval \<Rightarrow> jsval \<Rightarrow> jsnum" where
  "cmpDateDesc parseDate ta tb =
     (case parseDate tb of
        None \<Rightarrow> Fin (- 1)
      | Some b \<Rightarrow> (case parseDate ta of None \<Rightarrow> Fin 1 | Some a \<Rightarrow> Fin (b - a)))"

subsection \<open>Pagination\<close>

record 'a envelope =
  data :: "'a list"
  current :: int
  total :: jsnum
  totalItems :: nat
  hasNext :: bool
  hasPrev :: bool

text \<open>
  \<open>Math.ceil(n / p)\<close> for a length \<open>n\<close> and a page size \<open>p\<close>: the quotient of two
  integers below \<open>2^53\<close> is rounded correctly, so the ceiling is the exact one.
\<close>

definition ceil_div :: "nat \<Rightarrow> nat \<Rightarrow> jsnum" where
  "ceil_div n p =
     (if p = 0 then (if n = 0 then NaN else Infinity)
      else Fin (- ((- int n) div int p)))"

text \<open>The pagination block of \<open>searchOfficialContacts\<close> and \<open>searchInteractions\<close>.\<close>

definition paginate :: "'a list \<Rightarrow> int \<Rightarrow> nat \<Rightarrow> 'a envelope" where
  "paginate results page pageSize =
     (let startIndex = (page - 1) * int pageSize
      in \<lparr> data = js_slice results startIndex (startIndex + int pageSize),
           current = page,
           total = ceil_div (length results) pageSize,
           totalItems = length results,
           hasNext = (startIndex + int pageSize < int (length results)),
           hasPrev = (page > 1) \<rparr>)"

record pagination_config =
  CONTACTS_PER_PAGE :: "nat option"
  INTERACTIONS_PER_PAGE :: "nat option"

record config =
  PAGINATION :: "pagination_config option"

section \<open>InteractionService\<close>

definition not_specified :: jstring where
  "not_specified = [0x672A, 0x6307, 0x5B9A]"

definition unknown_opportunity :: jstring where
  "unknown_opportunity = [0x672A, 0x77E5, 0x6A5F, 0x6703]"

definition unknown_company :: jstring where
  "unknown_company = [0x672A, 0x77E5, 0x516C, 0x53F8]"

text \<open>The context name of one interaction (the join of \<open>searchInteractions\<close>).\<close>

definition contextName :: "(jsval \<rightharpoonup> jsval) \<Rightarrow> (jsval \<rightharpoonup> jsval) \<Rightarrow> obj \<Rightarrow> jsval" where
  "contextName oppMap compMap newItem =
     (if truthy (field newItem ''opportunityId'') \<and> map_has oppMap (field newItem ''opportunityId'')
        then map_get oppMap (field newItem ''opportunityId'')
      else if truthy (field newItem ''companyId'') \<and> map_has compMap (field newItem ''companyId'')
        then map_get compMap (field newItem ''companyId'')
      else if truthy (field newItem ''opportunityId'') then JStr unknown_opportunity
      else if truthy (field newItem ''companyId'') then JStr unknown_company
      else JStr not_specified)"

definition oppMap_of :: "obj list \<Rightarrow> (jsval \<rightharpoonup> jsval)" where
  "oppMap_of opportunities =
     js_Map (map (\<lambda>opp. (field opp ''opportunityId'', field opp ''opportunityName'')) opportunities)"

definition compMap_of :: "obj list \<Rightarrow> (jsval \<rightharpoonup> jsval)" where
  "compMap_of companies =
     js_Map (map (\<lambda>c. (field c ''companyId'', field c ''companyName'')) companies)"

definition joinInteractions :: "obj list \<Rightarrow> obj list \<Rightarrow> obj list \<Rightarrow> obj list" where
  "joinInteractions interactions opportunities companies =
     map (\<lambda>item. assign ''opportunityName''
                   (contextName (oppMap_of opportunities) (compMap_of companies) item) item)
         interactions"

definition interactionMatches :: "(jstring \<Rightarrow> jstring) \<Rightarrow> jstring \<Rightarrow> obj \<Rightarrow> error + bool" where
  "interactionMatches toLowerCase searchTerm i =
     any_field toLowerCase i [''contentSummary'', ''eventTitle'', ''opportunityName'', ''recorder'']
       searchTerm"

definition interactionsPageSize :: "config option \<Rightarrow> nat" where
  "interactionsPageSize cfg =
     (case cfg of
        None \<Rightarrow> 20
      | Some c \<Rightarrow> (case PAGINATION c of
                     None \<Rightarrow> 20
                   | Some p \<Rightarrow> (case INTERACTIONS_PER_PAGE p of
                                  None \<Rightarrow> 20
                                | Some n \<Rightarrow> (if n \<noteq> 0 then n else 20))))"

text \<open>
  Steps 1 to 5 of \<open>searchInteractions\<close>: fetch, join, filter and sort. The three reader
  results are the settled promises of \<open>Promise.all\<close>; a rejection is thrown on.
\<close>

definition interactionResults ::
  "((obj \<Rightarrow> obj \<Rightarrow> jsnum) \<Rightarrow> obj list \<Rightarrow> obj list) \<Rightarrow> (jstring \<Rightarrow> jstring) \<Rightarrow>
   (jsval \<Rightarrow> int option) \<Rightarrow> error + obj list \<Rightarrow> error + obj list \<Rightarrow> error + obj list \<Rightarrow>
   jstring option \<Rightarrow> error + obj list" where
  "interactionResults arraySort toLowerCase parseDate interactionsR opportunitiesR companiesR query =
     (case interactionsR of Inl e \<Rightarrow> Inl e | Inr interactions \<Rightarrow>
      case opportunitiesR of Inl e \<Rightarrow> Inl e | Inr opportunities \<Rightarrow>
      case companiesR of Inl e \<Rightarrow> Inl e | Inr companies \<Rightarrow>
      (let joined = joinInteractions interactions opportunities companies;
           filtered = (case query of
                         None \<Rightarrow> Inr joined
                       | Some q \<Rightarrow> (if q = [] then Inr joined
                                    else filterE (interactionMatches toLowerCase (toLowerCase q))
                                           joined))
       in (case filtered of
             Inl e \<Rightarrow> Inl e
           | Inr results \<Rightarrow>
               Inr (arraySort (\<lambda>a b. cmpDateDesc parseDate (field a ''interactionTime'')
                                                         (field b ''interactionTime''))
                              results))))"

definition searchInteractions ::
  "((obj \<Rightarrow> obj \<Rightarrow> jsnum) \<Rightarrow> obj list \<Rightarrow> obj list) \<Rightarrow> (jstring \<Rightarrow> jstring) \<Rightarrow>
   (jsval \<Rightarrow> int option) \<Rightarrow> error + obj list \<Rightarrow> error + obj list \<Rightarrow> error + obj list \<Rightarrow>
   config option \<Rightarrow> jstring option \<Rightarrow> int \<Rightarrow> bool \<Rightarrow> error + obj envelope" where
  "searchInteractions arraySort toLowerCase parseDate interactionsR opportunitiesR companiesR cfg
       query page fetchAll =
     (case interactionResults arraySort toLowerCase parseDate interactionsR opportunitiesR companiesR
             query of
        Inl e \<Rightarrow> Inl e
      | Inr results \<Rightarrow>
          (if fetchAll
           then Inr \<lparr> data = results, current = 1, total = Fin 1,
                     totalItems = length results, hasNext = False, hasPrev = False \<rparr>
           else Inr (paginate results page (interactionsPageSize cfg))))"

section \<open>ContactService\<close>

text \<open>
  What a reader call of the federated (SQL) store resolves to: an array, or a value that is
  no array (\<open>null\<close>, \<open>undefined\<close>, a scalar, a plain object).
\<close>

datatype 'a fetched = Sequence "'a list" | Scalar jsval | PlainObject obj

text \<open>
  The SQL-first read of \<open>searchOfficialContacts\<close> (lines 433 to 443): the inner
  \<open>try\<close> throws on a result that fails \<open>Array.isArray\<close>, and the \<open>catch\<close> reads the
  sheet reader instead.
\<close>

definition fetchOfficialContacts :: "error + obj fetched \<Rightarrow> error + obj list \<Rightarrow> error + obj list" where
  "fetchOfficialContacts sqlR sheetR =
     (case sqlR of
        Inl sqlError \<Rightarrow> sheetR
      | Inr (Sequence allContacts) \<Rightarrow> Inr allContacts
      | Inr (Scalar v) \<Rightarrow> sheetR
      | Inr (PlainObject ob) \<Rightarrow> sheetR)"

definition joinContacts :: "obj list \<Rightarrow> obj list \<Rightarrow> obj list" where
  "joinContacts allContacts allCompanies =
     map (\<lambda>contact. assign ''companyName''
                      (js_or (map_get (compMap_of allCompanies) (field contact ''companyId''))
                             (field contact ''companyId''))
                      contact)
         allContacts"

definition contactMatches :: "(jstring \<Rightarrow> jstring) \<Rightarrow> jstring \<Rightarrow> obj \<Rightarrow> error + bool" where
  "contactMatches toLowerCase searchTerm c =
     any_field toLowerCase c [''name'', ''companyName''] searchTerm"

text \<open>
  The constructor stores \<open>config || { PAGINATION: { CONTACTS_PER_PAGE: 20 } }\<close>; the page
  size is \<open>undefined\<close> (\<open>None\<close>) when the given configuration has a \<open>PAGINATION\<close> block
  without the key.
\<close>

definition contactsPageSize :: "config option \<Rightarrow> nat option" where
  "contactsPageSize cfg =
     (case cfg of
        None \<Rightarrow> Some 20
      | Some c \<Rightarrow> (case PAGINATION c of
                     None \<Rightarrow> Some 20
                   | Some p \<Rightarrow> CONTACTS_PER_PAGE p))"

text \<open>Steps 1 and 2 of \<open>searchOfficialContacts\<close>: fetch, join and filter.\<close>

definition officialContactResults ::
  "(jstring \<Rightarrow> jstring) \<Rightarrow> error + obj fetched \<Rightarrow> error + obj list \<Rightarrow> error + obj list \<Rightarrow>
   jstring option \<Rightarrow> error + obj list" where
  "officialContactResults toLowerCase sqlR sheetR companiesR query =
     (case fetchOfficialContacts sqlR sheetR of Inl e \<Rightarrow> Inl e | Inr allContacts \<Rightarrow>
      case companiesR of Inl e \<Rightarrow> Inl e | Inr allCompanies \<Rightarrow>
      (let contacts = joinContacts allContacts allCompanies
       in (case query of
             None \<Rightarrow> Inr contacts
           | Some q \<Rightarrow> (if q = [] then Inr contacts
                        else filterE (contactMatches toLowerCase (toLowerCase q)) contacts))))"

text \<open>
  With an \<open>undefined\<close> page size every index is \<open>NaN\<close>: \<open>slice(NaN, NaN)\<close> is empty and
  \<open>NaN < n\<close> is false.
\<close>

definition searchOfficialContacts ::
  "(jstring \<Rightarrow> jstring) \<Rightarrow> error + obj fetched \<Rightarrow> error + obj list \<Rightarrow> error + obj list \<Rightarrow>
   config option \<Rightarrow> jstring option \<Rightarrow> int \<Rightarrow> error + obj envelope" where
  "searchOfficialContacts toLowerCase sqlR sheetR companiesR cfg query page =
     (case officialContactResults toLowerCase sqlR sheetR companiesR query of
        Inl e \<Rightarrow> Inl e
      | Inr contacts \<Rightarrow>
          (case contactsPageSize cfg of
             Some pageSize \<Rightarrow> Inr (paginate contacts page pageSize)
           | None \<Rightarrow> Inr \<lparr> data = [], current = page, total = NaN,
                            totalItems = length contacts, hasNext = False,
                            hasPrev = (page > 1) \<rparr>))"

text \<open>\<open>getPotentialContacts(limit)\<close>: drop empty rows, sort by \<open>createdTime\<close>, cut.\<close>

definition getPotentialContacts ::
  "((obj \<Rightarrow> obj \<Rightarrow> jsnum) \<Rightarrow> obj list \<Rightarrow> obj list) \<Rightarrow> (jsval \<Rightarrow> int option) \<Rightarrow>
   error + obj list \<Rightarrow> int \<Rightarrow> error + obj list" where
  "getPotentialContacts arraySort parseDate contactsR limit =
     (case contactsR of
        Inl e \<Rightarrow> Inl e
      | Inr contacts \<Rightarrow>
          (let kept = filter (\<lambda>c. truthy (js_or (field c ''name'') (field c ''company''))) contacts;
               sorted = arraySort (\<lambda>a b. cmpDateDesc parseDate (field a ''createdTime'')
                                                            (field b ''createdTime'')) kept
           in Inr (if limit > 0 then js_slice sorted 0 limit else sorted)))"

section \<open>CompanyService and the company-name normalizer\<close>

text \<open>
  \<open>String.prototype.trim\<close> removes the code units of WhiteSpace and LineTerminator from
  both ends.
\<close>

definition is_space :: "nat \<Rightarrow> bool" where
  "is_space u \<longleftrightarrow>
     u \<in> {0x09, 0x0A, 0x0B, 0x0C, 0x0D, 0x20, 0xA0, 0x1680, 0x2028, 0x2029, 0x202F, 0x205F,
          0x3000, 0xFEFF}
     \<or> (0x2000 \<le> u \<and> u \<le> 0x200A)"

definition trim :: "jstring \<Rightarrow> jstring" where
  "trim s = rev (dropWhile is_space (rev (dropWhile is_space s)))"

text \<open>
  The three alternatives of the suffix pattern of \<open>_normalizeCompanyName\<close>, in the
  order of the pattern: U+80A1 U+4EFD U+6709 U+9650 U+516C U+53F8 (a company limited by
  shares), U+6709 U+9650 U+516C U+53F8 (a limited company) and U+516C U+53F8 (company).
\<close>

definition suffix_tokens :: "jstring list" where
  "suffix_tokens =
     [[0x80A1, 0x4EFD, 0x6709, 0x9650, 0x516C, 0x53F8],
      [0x6709, 0x9650, 0x516C, 0x53F8],
      [0x516C, 0x53F8]]"

text \<open>The first alternative that matches at the start of the string, as its length.\<close>

fun match_alternative :: "jstring list \<Rightarrow> jstring \<Rightarrow> nat option" where
  "match_alternative [] s = None"
| "match_alternative (t # ts) s =
     (if startsWith s t then Some (length t) else match_alternative ts s)"

text \<open>
  \<open>replace(/a|b|c/g, '')\<close>: scan from the left; at a match drop it and go on behind it,
  otherwise keep the code unit. The first argument counts the code units of the current
  match that are still to be dropped.
\<close>

fun remove_tokens :: "nat \<Rightarrow> jstring \<Rightarrow> jstring" where
  "remove_tokens k [] = []"
| "remove_tokens (Suc k) (c # s) = remove_tokens k s"
| "remove_tokens 0 (c # s) =
     (case match_alternative suffix_tokens (c # s) of
        Some n \<Rightarrow> remove_tokens (n - 1) s
      | None \<Rightarrow> c # remove_tokens 0 s)"

definition is_line_terminator :: "nat \<Rightarrow> bool" where
  "is_line_terminator u \<longleftrightarrow> u \<in> {0x0A, 0x0D, 0x2028, 0x2029}"

text \<open>
  The greedy \<open>.*\<close> of \<open>/\(.*\)/\<close> runs to the end of the line and backtracks to the last
  \<open>)\<close>: the number of code units after \<open>(\<close> up to and including that \<open>)\<close>, if there is one.
\<close>

fun last_close :: "jstring \<Rightarrow> nat option" where
  "last_close [] = None"
| "last_close (c # s) =
     (if is_line_terminator c then None
      else (case last_close s of
              Some n \<Rightarrow> Some (Suc n)
            | None \<Rightarrow> (if c = 0x29 then Some 1 else None)))"

text \<open>\<open>replace(/\(.*\)/g, '')\<close>, with the same counter of code units still to drop.\<close>

fun remove_parens :: "nat \<Rightarrow> jstring \<Rightarrow> jstring" where
  "remove_parens k [] = []"
| "remove_parens (Suc k) (c # s) = remove_parens k s"
| "remove_parens 0 (c # s) =
     (if c = 0x28
      then (case last_close s of
              Some n \<Rightarrow> remove_parens n s
            | None \<Rightarrow> c # remove_parens 0 s)
      else c # remove_parens 0 s)"

text \<open>The string pipeline of \<open>_normalizeCompanyName\<close>.\<close>

definition normalizeName :: "(jstring \<Rightarrow> jstring) \<Rightarrow> jstring \<Rightarrow> jstring" where
  "normalizeName toLowerCase name =
     trim (remove_parens 0 (remove_tokens 0 (trim (toLowerCase name))))"

text \<open>
  \<open>_normalizeCompanyName(name)\<close> (the same body in CompanyService and
  OpportunityService): a falsy name gives the empty string, a truthy value that is no
  string has no \<open>toLowerCase\<close>.
\<close>

definition normalizeCompanyName :: "(jstring \<Rightarrow> jstring) \<Rightarrow> jsval \<Rightarrow> error + jstring" where
  "normalizeCompanyName toLowerCase name =
     (if \<not> truthy name then Inr []
      else (case name of JStr s \<Rightarrow> Inr (normalizeName toLowerCase s) | _ \<Rightarrow> Inl TypeError))"

text \<open>A value that is a primitive or a record.\<close>

datatype jsref = Prim jsval | Object obj

text \<open>
  The calls a service makes on its writers and on the cache of its readers, in order.
\<close>

datatype effect =
    CreateCompany obj jsref
  | UpdateContactRow jsval obj jsref
  | WritePotentialContactRow jsval obj
  | UpdateEntryRow jsval obj jsval
  | InvalidateCache string

text \<open>\<open>user.displayName || user.username || user || 'System'\<close>\<close>

definition company_modifier :: "jsref \<Rightarrow> error + jsref" where
  "company_modifier user =
     (case user of
        Prim JUndefined \<Rightarrow> Inl TypeError
      | Prim JNull \<Rightarrow> Inl TypeError
      | Prim v \<Rightarrow> Inr (if truthy v then Prim v else Prim (JStr (ascii ''System'')))
      | Object u \<Rightarrow>
          Inr (if truthy (field u ''displayName'') then Prim (field u ''displayName'')
               else if truthy (field u ''username'') then Prim (field u ''username'')
               else Object u))"

text \<open>\<open>companies.find(c => this._normalizeCompanyName(c.companyName) === normalizedTarget)\<close>\<close>

fun find_company :: "(jstring \<Rightarrow> jstring) \<Rightarrow> jstring \<Rightarrow> obj list \<Rightarrow> error + obj option" where
  "find_company toLowerCase normalizedTarget [] = Inr None"
| "find_company toLowerCase normalizedTarget (c # cs) =
     (case normalizeCompanyName toLowerCase (field c ''companyName'') of
        Inl e \<Rightarrow> Inl e
      | Inr n \<Rightarrow> (if n = normalizedTarget then Inr (Some c)
                  else find_company toLowerCase normalizedTarget cs))"

definition company_exists_message :: jstring where
  "company_exists_message = [0x516C, 0x53F8, 0x5DF2, 0x5B58, 0x5728]"

text \<open>
  The value \<open>createCompany\<close> resolves to: the literal of the duplicate branch with
  \<open>success\<close>, \<open>id\<close>, \<open>name\<close>, \<open>message\<close>, \<open>existed\<close> and \<open>data\<close> in this order, or what the
  writer returned.
\<close>

datatype 'r create_result =
    CompanyExists bool jsval jsval jstring bool obj
  | WriterResult 'r

text \<open>
  \<open>createCompany(companyName, companyData, user)\<close>. \<open>companiesR\<close> is what
  \<open>getCompanyList\<close> settles to and \<open>writerR\<close> what the writer's \<open>createCompany\<close> settles
  to when it is called; \<open>hasInvalidate\<close> says whether the reader has an
  \<open>invalidateCache\<close> method. The result comes with the effects performed.
\<close>

definition createCompany ::
  "(jstring \<Rightarrow> jstring) \<Rightarrow> error + obj list \<Rightarrow> error + 'r \<Rightarrow> bool \<Rightarrow> jsval \<Rightarrow> obj \<Rightarrow> jsref \<Rightarrow>
   (error + 'r create_result) \<times> effect list" where
  "createCompany toLowerCase companiesR writerR hasInvalidate companyName companyData user =
     (case company_modifier user of Inl e \<Rightarrow> (Inl e, []) | Inr modifier \<Rightarrow>
      case companiesR of Inl e \<Rightarrow> (Inl e, []) | Inr companies \<Rightarrow>
      case normalizeCompanyName toLowerCase companyName of Inl e \<Rightarrow> (Inl e, [])
      | Inr normalizedTarget \<Rightarrow>
      case find_company toLowerCase normalizedTarget companies of Inl e \<Rightarrow> (Inl e, [])
      | Inr (Some existing) \<Rightarrow>
          (Inr (CompanyExists True (field existing ''companyId'') (field existing ''companyName'')
                  company_exists_message True existing), [])
      | Inr None \<Rightarrow>
          (let dataToWrite = spread [(''companyName'', companyName)] companyData
           in (case writerR of
                 Inl e \<Rightarrow> (Inl e, [CreateCompany dataToWrite modifier])
               | Inr result \<Rightarrow>
                   (Inr (WriterResult result),
                    CreateCompany dataToWrite modifier
                      # (if hasInvalidate then [InvalidateCache ''companyList''] else [])))))"

section \<open>OpportunityService\<close>

subsection \<open>Conversion to strings and property keys\<close>

fun decimal :: "nat \<Rightarrow> jstring" where
  "decimal n = (if n < 10 then [48 + n] else decimal (n div 10) @ [48 + n mod 10])"

text \<open>\<open>String(v)\<close>, which is also the property key of \<open>ob[v]\<close>.\<close>

fun to_string :: "jsval \<Rightarrow> jstring" where
  "to_string JUndefined = ascii ''undefined''"
| "to_string JNull = ascii ''null''"
| "to_string (JBool b) = (if b then ascii ''true'' else ascii ''false'')"
| "to_string (JNum n) = (if n < 0 then 45 # decimal (nat (- n)) else decimal (nat n))"
| "to_string (JStr s) = s"

subsection \<open>Grouping by stage\<close>

record stage_group =
  name :: jsval
  opportunities :: "obj list"
  count :: nat

text \<open>
  \<open>stageGroups\<close> starts as \<open>{}\<close>: besides its own properties it inherits those of
  \<open>Object.prototype\<close>, and an assignment to the key \<open>__proto__\<close> replaces its prototype
  instead of creating a property.
\<close>

record stage_groups =
  own :: "(jstring \<times> stage_group) list"
  proto :: "stage_group option"

definition object_prototype_keys :: "jstring list" where
  "object_prototype_keys =
     map ascii [''__proto__'', ''constructor'', ''hasOwnProperty'', ''isPrototypeOf'',
                ''propertyIsEnumerable'', ''toLocaleString'', ''toString'', ''valueOf'',
                ''__defineGetter__'', ''__defineSetter__'', ''__lookupGetter__'',
                ''__lookupSetter__'']"

fun put_own :: "jstring \<Rightarrow> stage_group \<Rightarrow> (jstring \<times> stage_group) list \<Rightarrow> (jstring \<times> stage_group) list" where
  "put_own k g [] = [(k, g)]"
| "put_own k g (p # ps) = (if fst p = k then (k, g) # ps else p # put_own k g ps)"

text \<open>\<open>stageGroups[stage.value] = { name: stage.note || stage.value, opportunities: [], count: 0 }\<close>\<close>

definition init_stage :: "obj \<Rightarrow> stage_groups \<Rightarrow> stage_groups" where
  "init_stage stage sg =
     (let k = to_string (field stage ''value'');
          g = \<lparr> name = js_or (field stage ''note'') (field stage ''value''),
                opportunities = [], count = 0 \<rparr>
      in if k = ascii ''__proto__'' then sg \<lparr> proto := Some g \<rparr>
         else sg \<lparr> own := put_own k g (own sg) \<rparr>)"

text \<open>What \<open>stageGroups[stageKey]\<close> evaluates to.\<close>

datatype looked_up = OwnGroup stage_group | PrototypeGroup stage_group | OtherTruthy | Falsy

definition lookup_group :: "stage_groups \<Rightarrow> jstring \<Rightarrow> looked_up" where
  "lookup_group sg k =
     (case map_of (own sg) k of
        Some g \<Rightarrow> OwnGroup g
      | None \<Rightarrow>
          (case proto sg of
             Some g \<Rightarrow>
               (if k = ascii ''__proto__'' then PrototypeGroup g
                else if k = ascii ''name'' then (if truthy (name g) then OtherTruthy else Falsy)
                else if k = ascii ''opportunities'' then OtherTruthy
                else if k = ascii ''count'' then (if count g \<noteq> 0 then OtherTruthy else Falsy)
                else if k \<in> set object_prototype_keys then OtherTruthy
                else Falsy)
           | None \<Rightarrow> (if k \<in> set object_prototype_keys then OtherTruthy else Falsy)))"

definition in_progress :: jstring where
  "in_progress = [0x9032, 0x884C, 0x4E2D]"

definition push_opportunity :: "obj \<Rightarrow> stage_group \<Rightarrow> stage_group" where
  "push_opportunity opp g = g \<lparr> opportunities := opportunities g @ [opp], count := Suc (count g) \<rparr>"

text \<open>
  One round of the classifying \<open>forEach\<close>. A truthy inherited value that is no group has
  no \<open>opportunities\<close>, so \<open>push\<close> is called on \<open>undefined\<close> and throws.
\<close>

definition classify :: "obj \<Rightarrow> stage_groups \<Rightarrow> error + stage_groups" where
  "classify opp sg =
     (if field opp ''currentStatus'' = JStr in_progress
      then (let stageKey = to_string (field opp ''currentStage'')
            in (case lookup_group sg stageKey of
                  OwnGroup g \<Rightarrow> Inr (sg \<lparr> own := put_own stageKey (push_opportunity opp g) (own sg) \<rparr>)
                | PrototypeGroup g \<Rightarrow> Inr (sg \<lparr> proto := Some (push_opportunity opp g) \<rparr>)
                | OtherTruthy \<Rightarrow> Inl TypeError
                | Falsy \<Rightarrow> Inr sg))
      else Inr sg)"

fun classify_all :: "obj list \<Rightarrow> stage_groups \<Rightarrow> error + stage_groups" where
  "classify_all [] sg = Inr sg"
| "classify_all (opp # opps) sg =
     (case classify opp sg of Inl e \<Rightarrow> Inl e | Inr sg' \<Rightarrow> classify_all opps sg')"

definition empty_groups :: stage_groups where
  "empty_groups = \<lparr> own = [], proto = None \<rparr>"

text \<open>
  \<open>getOpportunitiesByStage()\<close>. \<open>opportunitiesR\<close> is what \<open>getOpportunities\<close> settles to
  (anything but an array counts as no opportunities); \<open>systemConfigR\<close> is what
  \<open>getSystemConfig\<close> settles to, reduced to the entry under the stage key: \<open>None\<close> for a
  configuration that is \<open>null\<close> or \<open>undefined\<close>, \<open>Some None\<close> for a missing entry. Every
  error ends in the \<open>catch\<close>, which returns \<open>{}\<close>.
\<close>

definition getOpportunitiesByStage ::
  "error + obj fetched \<Rightarrow> error + obj list option option \<Rightarrow> stage_groups" where
  "getOpportunitiesByStage opportunitiesR systemConfigR =
     (case opportunitiesR of Inl e \<Rightarrow> empty_groups | Inr fetchedOpportunities \<Rightarrow>
      case systemConfigR of Inl e \<Rightarrow> empty_groups | Inr None \<Rightarrow> empty_groups
      | Inr (Some stagesEntry) \<Rightarrow>
          (let safeOpportunities = (case fetchedOpportunities of Sequence opps \<Rightarrow> opps | _ \<Rightarrow> []);
               stages = (case stagesEntry of Some st \<Rightarrow> st | None \<Rightarrow> []);
               stageGroups = fold init_stage stages empty_groups
           in (case classify_all safeOpportunities stageGroups of
                 Inl e \<Rightarrow> empty_groups
               | Inr result \<Rightarrow> result)))"

subsection \<open>Opportunity details\<close>

text \<open>
  The comparator \<open>(a, b) => new Date(tb) - new Date(ta)\<close> of the unguarded date sorts:
  the difference of two timestamps, \<open>NaN\<close> as soon as one of the dates is invalid.
\<close>

definition cmpDateMinus :: "(jsval \<Rightarrow> int option) \<Rightarrow> jsval \<Rightarrow> jsval \<Rightarrow> jsnum" where
  "cmpDateMinus parseDate ta tb =
     (case parseDate tb of
        None \<Rightarrow> NaN
      | Some b \<Rightarrow> (case parseDate ta of None \<Rightarrow> NaN | Some a \<Rightarrow> Fin (b - a)))"

fun safeGet :: "obj \<Rightarrow> string list \<Rightarrow> jsval" where
  "safeGet ob [] = JUndefined"
| "safeGet ob (k # keys) =
     (if field ob k \<noteq> JUndefined \<and> field ob k \<noteq> JNull \<and> field ob k \<noteq> JStr []
      then field ob k else safeGet ob keys)"

definition normalizeStr :: "jsval \<Rightarrow> jstring" where
  "normalizeStr v = (if v = JUndefined \<or> v = JNull then [] else trim (to_string v))"

definition linkIsActive :: "(jstring \<Rightarrow> jstring) \<Rightarrow> jsval \<Rightarrow> obj \<Rightarrow> bool" where
  "linkIsActive toLowerCase opportunityId link =
     (let linkOppId = normalizeStr (safeGet link [''opportunityId'', ''oppId'', ''opportunity_id''])
      in if linkOppId = [] then False
         else (let statusVal = toLowerCase (normalizeStr (safeGet link [''status'', ''linkStatus'', ''state'']));
                   isActive = (statusVal = [] \<or> statusVal = ascii ''active'')
               in linkOppId = normalizeStr opportunityId \<and> isActive))"

definition linkToContact :: "obj list \<Rightarrow> obj \<Rightarrow> obj option" where
  "linkToContact allOfficialContacts link =
     (let linkContactId = normalizeStr (safeGet link [''contactId'', ''id'', ''contact_id''])
      in if linkContactId = [] then None
         else (case find (\<lambda>c. normalizeStr (field c ''contactId'') = linkContactId) allOfficialContacts of
                 None \<Rightarrow> None
               | Some contact \<Rightarrow>
                   Some (assign ''linkId'' (safeGet link [''linkId'', ''id'', ''rowId'', ''rowIndex'']) contact)))"

definition linkedContactsOf ::
  "(jstring \<Rightarrow> jstring) \<Rightarrow> jsval \<Rightarrow> obj list \<Rightarrow> obj list \<Rightarrow> obj list" where
  "linkedContactsOf toLowerCase opportunityId allLinks allOfficialContacts =
     List.map_filter (linkToContact allOfficialContacts)
       (filter (linkIsActive toLowerCase opportunityId) allLinks)"

text \<open>The callback of the \<open>potentialContacts\<close> filter (lines 605 to 608).\<close>

definition sameCompany :: "(jstring \<Rightarrow> jstring) \<Rightarrow> jstring \<Rightarrow> obj \<Rightarrow> error + bool" where
  "sameCompany toLowerCase normalizedOppCompany pc =
     (case normalizeCompanyName toLowerCase (field pc ''company'') of
        Inl e \<Rightarrow> Inl e
      | Inr normalizedPcCompany \<Rightarrow>
          Inr (normalizedPcCompany \<noteq> [] \<and> normalizedOppCompany \<noteq> []
               \<and> normalizedPcCompany = normalizedOppCompany))"

text \<open>The callback of the third, global search for the main contact (lines 627 to 630).\<close>

fun find_fallback ::
  "(jstring \<Rightarrow> jstring) \<Rightarrow> jstring \<Rightarrow> jstring \<Rightarrow> obj list \<Rightarrow> error + obj option" where
  "find_fallback toLowerCase targetName normalizedOppCompany [] = Inr None"
| "find_fallback toLowerCase targetName normalizedOppCompany (pc # pcs) =
     (if field pc ''name'' = JStr targetName
      then (case normalizeCompanyName toLowerCase (field pc ''company'') of
              Inl e \<Rightarrow> Inl e
            | Inr n \<Rightarrow> (if n = normalizedOppCompany then Inr (Some pc)
                        else find_fallback toLowerCase targetName normalizedOppCompany pcs))
      else find_fallback toLowerCase targetName normalizedOppCompany pcs)"

definition has_position :: "obj option \<Rightarrow> bool" where
  "has_position m = (case m of None \<Rightarrow> False | Some c \<Rightarrow> truthy (field c ''position''))"

text \<open>The job title of the main contact (lines 611 to 636).\<close>

definition resolveJobTitle ::
  "(jstring \<Rightarrow> jstring) \<Rightarrow> obj \<Rightarrow> obj list \<Rightarrow> obj list \<Rightarrow> obj list \<Rightarrow> jstring \<Rightarrow> error + jsval" where
  "resolveJobTitle toLowerCase opportunityInfo linkedContactsFromCache potentialContactsOfCompany
       allPotentialContacts normalizedOppCompany =
     (case js_or (field opportunityInfo ''mainContact'') (JStr []) of
        JStr mainContact \<Rightarrow>
          (let targetName = trim mainContact
           in if targetName = [] then Inr (JStr [])
              else (let linkedMatch = find (\<lambda>c. field c ''name'' = JStr targetName) linkedContactsFromCache
                    in if has_position linkedMatch then Inr (field (the linkedMatch) ''position'')
                       else (let potentialMatch = find (\<lambda>pc. field pc ''name'' = JStr targetName)
                                                       potentialContactsOfCompany
                             in if has_position potentialMatch
                                then Inr (field (the potentialMatch) ''position'')
                                else (case find_fallback toLowerCase targetName normalizedOppCompany
                                             allPotentialContacts of
                                        Inl e \<Rightarrow> Inl e
                                      | Inr fallbackMatch \<Rightarrow>
                                          Inr (if has_position fallbackMatch
                                               then field (the fallbackMatch) ''position''
                                               else JStr [])))))
      | _ \<Rightarrow> Inl TypeError)"

fun find_pos :: "('a \<Rightarrow> bool) \<Rightarrow> 'a list \<Rightarrow> nat option" where
  "find_pos P [] = None"
| "find_pos P (x # xs) = (if P x then Some 0 else map_option Suc (find_pos P xs))"

record opportunity_details =
  opportunityInfo :: obj
  interactions :: "obj list"
  eventLogs :: "obj list"
  linkedContacts :: "obj list"
  potentialContacts :: "obj list"
  parentOpportunity :: "obj option"
  childOpportunities :: "obj list"

text \<open>
  The body of \<open>getOpportunityDetails(opportunityId)\<close> behind \<open>Promise.all\<close>, on the
  six collections the readers served. \<open>allOpportunities\<close> is the array the opportunity
  reader serves from its cache. \<open>find\<close> returns the element of that array itself, so the
  assignment of line 637 writes into the cached record: the function returns, next to its
  result, the content of the cached array after the call.
\<close>

definition opportunityDetailsOf ::
  "((obj \<Rightarrow> obj \<Rightarrow> jsnum) \<Rightarrow> obj list \<Rightarrow> obj list) \<Rightarrow> (jstring \<Rightarrow> jstring) \<Rightarrow>
   (jsval \<Rightarrow> int option) \<Rightarrow> obj list \<Rightarrow> obj list \<Rightarrow> obj list \<Rightarrow> obj list option \<Rightarrow>
   obj list option \<Rightarrow> obj list \<Rightarrow> jsval \<Rightarrow> (error + opportunity_details) \<times> obj list" where
  "opportunityDetailsOf arraySort toLowerCase parseDate allOpportunities interactionsFromCache
       eventLogsFromCache allLinks allOfficialContacts allPotentialContacts opportunityId =
     (case find_pos (\<lambda>opp. field opp ''opportunityId'' = opportunityId) allOpportunities of
        None \<Rightarrow> (Inl NotFound, allOpportunities)
      | Some pos \<Rightarrow>
      (let found = allOpportunities ! pos;
           linkedContactsFromCache =
             linkedContactsOf toLowerCase opportunityId (case allLinks of Some ls \<Rightarrow> ls | None \<Rightarrow> [])
               (case allOfficialContacts of Some cs \<Rightarrow> cs | None \<Rightarrow> []);
           sortedInteractions =
             arraySort (\<lambda>a b. cmpDateMinus parseDate
                                 (js_or (field a ''interactionTime'') (field a ''createdTime''))
                                 (js_or (field b ''interactionTime'') (field b ''createdTime'')))
               (filter (\<lambda>i. field i ''opportunityId'' = opportunityId) interactionsFromCache);
           sortedEventLogs =
             arraySort (\<lambda>a b. cmpDateMinus parseDate
                                 (js_or (field a ''createdTime'') (JNum 0))
                                 (js_or (field b ''createdTime'') (JNum 0)))
               (filter (\<lambda>l. field l ''opportunityId'' = opportunityId) eventLogsFromCache)
       in case normalizeCompanyName toLowerCase (field found ''customerCompany'') of
            Inl e \<Rightarrow> (Inl e, allOpportunities)
          | Inr normalizedOppCompany \<Rightarrow>
       case filterE (sameCompany toLowerCase normalizedOppCompany) allPotentialContacts of
            Inl e \<Rightarrow> (Inl e, allOpportunities)
          | Inr potentialContactsOfCompany \<Rightarrow>
       case resolveJobTitle toLowerCase found linkedContactsFromCache potentialContactsOfCompany
              allPotentialContacts normalizedOppCompany of
            Inl e \<Rightarrow> (Inl e, allOpportunities)
          | Inr mainContactJobTitle \<Rightarrow>
       (let info = assign ''mainContactJobTitle'' mainContactJobTitle found;
            cached = allOpportunities [pos := info];
            parent = (if truthy (field info ''parentOpportunityId'')
                      then find (\<lambda>opp. field opp ''opportunityId'' = field info ''parentOpportunityId'') cached
                      else None)
        in (Inr \<lparr> opportunityInfo = info,
                  interactions = sortedInteractions,
                  eventLogs = sortedEventLogs,
                  linkedContacts = linkedContactsFromCache,
                  potentialContacts = potentialContactsOfCompany,
                  parentOpportunity = parent,
                  childOpportunities =
                    filter (\<lambda>opp. field opp ''parentOpportunityId'' = opportunityId) cached \<rparr>,
            cached))))"

text \<open>The first rejection among the six reader calls of \<open>Promise.all\<close>, if there is one.\<close>

definition first_rejection :: "(error + unit) list \<Rightarrow> error option" where
  "first_rejection rs = (case List.map_filter (\<lambda>r. case r of Inl e \<Rightarrow> Some e | Inr u \<Rightarrow> None) rs of
                           [] \<Rightarrow> None | e # es \<Rightarrow> Some e)"

definition settled :: "error + 'a \<Rightarrow> error + unit" where
  "settled r = (case r of Inl e \<Rightarrow> Inl e | Inr v \<Rightarrow> Inr ())"

definition fulfilled :: "error + 'a list \<Rightarrow> 'a list" where
  "fulfilled r = (case r of Inl e \<Rightarrow> [] | Inr v \<Rightarrow> v)"

definition fulfilled_opt :: "error + 'a list option \<Rightarrow> 'a list option" where
  "fulfilled_opt r = (case r of Inl e \<Rightarrow> None | Inr v \<Rightarrow> v)"

text \<open>
  \<open>getOpportunityDetails(opportunityId)\<close>. The six arguments ending in \<open>R\<close> are what the
  reader calls settle to. When one of them rejects, the rejection is thrown on and no
  record is touched.
\<close>

definition getOpportunityDetails ::
  "((obj \<Rightarrow> obj \<Rightarrow> jsnum) \<Rightarrow> obj list \<Rightarrow> obj list) \<Rightarrow> (jstring \<Rightarrow> jstring) \<Rightarrow>
   (jsval \<Rightarrow> int option) \<Rightarrow> error + obj list \<Rightarrow> error + obj list \<Rightarrow> error + obj list \<Rightarrow>
   error + obj list option \<Rightarrow> error + obj list option \<Rightarrow> error + obj list \<Rightarrow> jsval \<Rightarrow>
   (error + opportunity_details) \<times> obj list" where
  "getOpportunityDetails arraySort toLowerCase parseDate allOpportunitiesR interactionsR eventLogsR
       allLinksR allOfficialContactsR allPotentialContactsR opportunityId =
     (case first_rejection [settled allOpportunitiesR, settled interactionsR, settled eventLogsR,
                            settled allLinksR, settled allOfficialContactsR,
                            settled allPotentialContactsR] of
        Some e \<Rightarrow> (Inl e, fulfilled allOpportunitiesR)
      | None \<Rightarrow>
          opportunityDetailsOf arraySort toLowerCase parseDate (fulfilled allOpportunitiesR)
            (fulfilled interactionsR) (fulfilled eventLogsR) (fulfilled_opt allLinksR)
            (fulfilled_opt allOfficialContactsR) (fulfilled allPotentialContactsR) opportunityId)"

section \<open>WeeklyBusinessService\<close>

text \<open>
  Property names are byte strings; the Chinese keys of the weekly entries are written in
  UTF-8 (\<open>key_date\<close> is the key of the entry date, and so on).
\<close>

definition key_date :: string where
  "key_date = [CHR 0xE6, CHR 0x97, CHR 0xA5, CHR 0xE6, CHR 0x9C, CHR 0x9F]"

definition key_category :: string where
  "key_category = [CHR 0xE5, CHR 0x88, CHR 0x86, CHR 0xE9, CHR 0xA1, CHR 0x9E]"

definition key_topic :: string where
  "key_topic = [CHR 0xE9, CHR 0xA0, CHR 0x85, CHR 0xE7, CHR 0x9B, CHR 0xAE]"

definition key_content :: string where
  "key_content = [CHR 0xE5, CHR 0x85, CHR 0xA7, CHR 0xE5, CHR 0xAE, CHR 0xB9]"

definition key_participants :: string where
  "key_participants = [CHR 0xE5, CHR 0x8F, CHR 0x83, CHR 0xE8, CHR 0x88, CHR 0x87, CHR 0xE4, CHR 0xBA, CHR 0xBA]"

definition key_todo :: string where
  "key_todo = [CHR 0xE8, CHR 0xBF, CHR 0xBD, CHR 0xE8, CHR 0xB9, CHR 0xA4, CHR 0xE4, CHR 0xBA, CHR 0x8B, CHR 0xE9, CHR 0xA0, CHR 0x85]"

definition key_plan :: string where
  "key_plan = [CHR 0xE4, CHR 0xB8, CHR 0x8B, CHR 0xE9, CHR 0x80, CHR 0xB1, CHR 0xE8, CHR 0xA8, CHR 0x88, CHR 0xE7, CHR 0x95, CHR 0xAB]"

definition key_division :: string where
  "key_division = [CHR 0xE9, CHR 0x83, CHR 0xA8, CHR 0xE9, CHR 0x96, CHR 0x80]"

text \<open>\<open>row.k\<close> for a truthy row: a primitive has none of the columns.\<close>

definition column :: "jsref \<Rightarrow> string \<Rightarrow> jsval" where
  "column row k = (case row of Object ob \<Rightarrow> field ob k | Prim v \<Rightarrow> JUndefined)"

definition nullish_or_empty :: "jsval \<Rightarrow> jsval" where
  "nullish_or_empty v = (if v = JUndefined \<or> v = JNull then JStr [] else v)"

definition toServiceDTO :: "jsref \<Rightarrow> jsref" where
  "toServiceDTO row =
     (if (case row of Prim v \<Rightarrow> \<not> truthy v | Object ob \<Rightarrow> False) then Prim JNull
      else Object
        [(''recordId'', column row ''record_id''),
         (''weekId'', column row ''week_id''),
         (key_date, column row ''entry_date''),
         (''summaryContent'', column row ''summary_content''),
         (''creator'', column row ''created_by''),
         (''entryDate'', column row ''entry_date''),
         (''category'', column row ''category''),
         (''topic'', column row ''topic''),
         (''participants'', column row ''participants''),
         (''todoItems'', column row ''todo_items''),
         (''createdTime'', column row ''created_time''),
         (''updatedTime'', column row ''updated_time''),
         (key_category, column row ''category''),
         (key_topic, column row ''topic''),
         (key_content, column row ''summary_content''),
         (key_participants, column row ''participants''),
         (key_todo, column row ''todo_items''),
         (key_plan, nullish_or_empty (column row ''plan'')),
         (key_division, nullish_or_empty (column row ''division''))])"

text \<open>
  \<open>_fetchWeeklyEntries(options)\<close>. \<open>repoR\<close> is \<open>None\<close> when no SQL repository is
  injected, otherwise what its \<open>findAll\<close> settles to; \<open>sheetR\<close> is what the sheet
  reader's \<open>getAllEntries\<close> settles to. On a value that is no array the call
  \<open>sqlEntries.map\<close> throws inside the \<open>try\<close>.
\<close>

definition fetchWeeklyEntries ::
  "bool \<Rightarrow> (error + jsref fetched) option \<Rightarrow> error + jsref list \<Rightarrow> error + jsref list" where
  "fetchWeeklyEntries forceSheet repoR sheetR =
     (case (if forceSheet then None else repoR) of
        None \<Rightarrow> sheetR
      | Some (Inl e) \<Rightarrow> sheetR
      | Some (Inr (Sequence sqlEntries)) \<Rightarrow> Inr (map toServiceDTO sqlEntries)
      | Some (Inr (Scalar v)) \<Rightarrow> sheetR
      | Some (Inr (PlainObject ob)) \<Rightarrow> sheetR)"

text \<open>The relation \<open><=\<close> on two strings: lexicographic on code units.\<close>

fun str_le :: "jstring \<Rightarrow> jstring \<Rightarrow> bool" where
  "str_le [] t = True"
| "str_le (x # s) [] = False"
| "str_le (x # s) (y # t) = (x < y \<or> (x = y \<and> str_le s t))"

text \<open>
  The filter callback of \<open>getEntriesForWeek\<close>. The bounds are the ISO dates of
  \<open>getWeekInfo\<close>; their numeric value is \<open>NaN\<close>, so a date value that is no string
  compares false with them.
\<close>

definition inWeek :: "jstring \<Rightarrow> jstring \<Rightarrow> jsref \<Rightarrow> error + bool" where
  "inWeek weekStartStr weekEndStr entry =
     (case entry of
        Prim JUndefined \<Rightarrow> Inl TypeError
      | Prim JNull \<Rightarrow> Inl TypeError
      | Prim v \<Rightarrow> Inr False
      | Object ob \<Rightarrow>
          (case js_or (field ob ''entryDate'') (field ob key_date) of
             JStr dateVal \<Rightarrow> Inr (dateVal \<noteq> [] \<and> str_le weekStartStr dateVal \<and> str_le dateVal weekEndStr)
           | _ \<Rightarrow> Inr False))"

definition objects_of :: "jsref list \<Rightarrow> obj list" where
  "objects_of es = List.map_filter (\<lambda>e. case e of Object ob \<Rightarrow> Some ob | Prim v \<Rightarrow> None) es"

text \<open>
  Steps 1 to 4 of \<open>getEntriesForWeek(weekId)\<close>: the entries of the week in the order of
  the result. Step 5 maps each entry to a copy with the two \<open>day\<close> fields and neither
  reorders nor drops an entry. \<open>weekInfoR\<close> is what \<open>getWeekInfo(weekId)\<close> returns, as
  the list of its \<open>days[i].date\<close> (\<open>None\<close> when \<open>weekInfo\<close> or \<open>weekInfo.days\<close> is falsy).
  The \<open>catch\<close> turns every error into the empty list.
\<close>

definition entriesForWeekSorted ::
  "((obj \<Rightarrow> obj \<Rightarrow> jsnum) \<Rightarrow> obj list \<Rightarrow> obj list) \<Rightarrow> (jsval \<Rightarrow> int option) \<Rightarrow>
   (error + jsref fetched) option \<Rightarrow> error + jsref list \<Rightarrow> error + jstring list option \<Rightarrow>
   obj list" where
  "entriesForWeekSorted arraySort parseDate repoR sheetR weekInfoR =
     (case fetchWeeklyEntries False repoR sheetR of Inl e \<Rightarrow> [] | Inr allEntries \<Rightarrow>
      case weekInfoR of Inl e \<Rightarrow> [] | Inr None \<Rightarrow> [] | Inr (Some days) \<Rightarrow>
      if days = [] then []
      else (case filterE (inWeek (hd days) (last days)) allEntries of
              Inl e \<Rightarrow> []
            | Inr entries \<Rightarrow>
                arraySort (\<lambda>a b. cmpDateMinus parseDate (field a key_date) (field b key_date))
                  (objects_of entries)))"

text \<open>\<open>allEntries.find(e => e.recordId === recordId)\<close>\<close>

fun find_entry :: "jsval \<Rightarrow> jsref list \<Rightarrow> error + jsref option" where
  "find_entry recordId [] = Inr None"
| "find_entry recordId (e # es) =
     (case e of
        Prim JUndefined \<Rightarrow> Inl TypeError
      | Prim JNull \<Rightarrow> Inl TypeError
      | _ \<Rightarrow> (if column e ''recordId'' = recordId then Inr (Some e) else find_entry recordId es))"

definition ref_truthy :: "jsref \<Rightarrow> bool" where
  "ref_truthy r = (case r of Prim v \<Rightarrow> truthy v | Object ob \<Rightarrow> True)"

text \<open>
  \<open>updateWeeklyBusinessEntry(recordId, data)\<close>: look the row up in the sheet, then the
  pure write. \<open>writerR\<close> is what \<open>updateEntryRow\<close> settles to when it is called.
\<close>

definition updateWeeklyBusinessEntry ::
  "(error + jsref fetched) option \<Rightarrow> error + jsref list \<Rightarrow> error + 'r \<Rightarrow> jsval \<Rightarrow> obj \<Rightarrow>
   (error + 'r) \<times> effect list" where
  "updateWeeklyBusinessEntry repoR sheetR writerR recordId entryData =
     (case fetchWeeklyEntries True repoR sheetR of Inl e \<Rightarrow> (Inl e, []) | Inr allEntries \<Rightarrow>
      case find_entry recordId allEntries of Inl e \<Rightarrow> (Inl e, []) | Inr found \<Rightarrow>
      (if (case found of None \<Rightarrow> True | Some target \<Rightarrow> \<not> ref_truthy target) then (Inl NotFound, [])
       else (let target = the found;
                 modifier = js_or (field entryData ''creator'') (JStr (ascii ''System''))
             in (writerR, [UpdateEntryRow (column target ''rowIndex'') entryData modifier]))))"

section \<open>ContactService: updates\<close>

datatype ack = Success

text \<open>
  \<open>updateContact(contactId, updateData, user)\<close>. \<open>contactsR\<close> is what \<open>getContactList\<close>
  settles to, \<open>writerR\<close> what \<open>updateContactRow\<close> settles to when it is called.
\<close>

definition updateContact ::
  "error + obj list \<Rightarrow> error + 'r \<Rightarrow> jsval \<Rightarrow> obj \<Rightarrow> jsref \<Rightarrow> (error + ack) \<times> effect list" where
  "updateContact contactsR writerR contactId updateData user =
     (case contactsR of Inl e \<Rightarrow> (Inl e, []) | Inr allContacts \<Rightarrow>
      case find (\<lambda>c. field c ''contactId'' = contactId) allContacts of
        None \<Rightarrow> (Inl NotFound, [])
      | Some target \<Rightarrow>
          (let rowIndex = field target ''rowIndex''
           in if \<not> truthy rowIndex then (Inl MissingRowIndex, [])
              else (case writerR of
                      Inl e \<Rightarrow> (Inl e, [UpdateContactRow rowIndex updateData user])
                    | Inr r \<Rightarrow> (Inr Success, [UpdateContactRow rowIndex updateData user,
                                                InvalidateCache ''contactList'']))))"

subsection \<open>\<open>parseInt\<close>\<close>

definition digit_value :: "nat \<Rightarrow> nat option" where
  "digit_value u =
     (if 48 \<le> u \<and> u \<le> 57 then Some (u - 48)
      else if 97 \<le> u \<and> u \<le> 122 then Some (u - 87)
      else if 65 \<le> u \<and> u \<le> 90 then Some (u - 55)
      else None)"

definition parse_digits :: "nat \<Rightarrow> jstring \<Rightarrow> nat option" where
  "parse_digits radix s =
     (let ds = takeWhile (\<lambda>u. case digit_value u of Some d \<Rightarrow> d < radix | None \<Rightarrow> False) s
      in if ds = [] then None
         else Some (fold (\<lambda>u acc. acc * radix + the (digit_value u)) ds 0))"

text \<open>
  \<open>parseInt(v)\<close> without a radix: the string of the value, leading white space, a sign,
  a hexadecimal prefix, then the longest run of digits; \<open>None\<close> is \<open>NaN\<close>.
\<close>

definition parseInt :: "jsval \<Rightarrow> int option" where
  "parseInt v =
     (let s = dropWhile is_space (to_string v);
          negative = (s \<noteq> [] \<and> hd s = 45);
          s1 = (if s \<noteq> [] \<and> (hd s = 45 \<or> hd s = 43) then tl s else s);
          hex = (length s1 \<ge> 2 \<and> hd s1 = 48 \<and> (s1 ! 1 = 120 \<or> s1 ! 1 = 88));
          parsed = (if hex then parse_digits 16 (drop 2 s1) else parse_digits 10 s1)
      in map_option (\<lambda>n. if negative then - int n else int n) parsed)"

text \<open>
  The notes of the merged row (lines 646 to 650). \<open>today\<close> is the engine's
  \<open>new Date().toLocaleDateString()\<close>.
\<close>

definition newNoteEntry :: "jsval \<Rightarrow> jstring \<Rightarrow> jsval \<Rightarrow> jstring" where
  "newNoteEntry modifier today notes =
     [91] @ to_string modifier @ [32] @ today @ [93, 32] @ to_string notes"

definition appendNotes :: "obj \<Rightarrow> obj \<Rightarrow> jsval \<Rightarrow> jstring \<Rightarrow> obj \<Rightarrow> obj" where
  "appendNotes target updateData modifier today mergedData =
     (if truthy (field updateData ''notes'')
      then (let oldNotes = js_or (field target ''notes'') (JStr []);
                entry = newNoteEntry modifier today (field updateData ''notes'')
            in assign ''notes''
                 (JStr (if truthy oldNotes then to_string oldNotes @ [10] @ entry else entry))
                 mergedData)
      else mergedData)"

text \<open>
  \<open>updatePotentialContact(rowIndex, updateData, modifier)\<close>: read, merge, write.
  \<open>contactsR\<close> is what \<open>getContacts\<close> settles to, \<open>writerR\<close> what
  \<open>writePotentialContactRow\<close> settles to when it is called.
\<close>

definition updatePotentialContact ::
  "error + obj list \<Rightarrow> error + 'r \<Rightarrow> jstring \<Rightarrow> jsval \<Rightarrow> obj \<Rightarrow> jsval \<Rightarrow>
   (error + ack) \<times> effect list" where
  "updatePotentialContact contactsR writerR today rowIndex updateData modifier =
     (case contactsR of Inl e \<Rightarrow> (Inl e, []) | Inr allContacts \<Rightarrow>
      case find (\<lambda>c. case parseInt rowIndex of
                       None \<Rightarrow> False
                     | Some n \<Rightarrow> field c ''rowIndex'' = JNum n) allContacts of
        None \<Rightarrow> (Inl NotFound, [])
      | Some target \<Rightarrow>
          (let mergedData = appendNotes target updateData modifier today (spread target updateData)
           in (case writerR of
                 Inl e \<Rightarrow> (Inl e, [WritePotentialContactRow rowIndex mergedData])
               | Inr r \<Rightarrow> (Inr Success, [WritePotentialContactRow rowIndex mergedData,
                                           InvalidateCache ''contacts'']))))"

section \<open>The stores behind the services\<close>

text \<open>
  Modelled from the spec: the readers with their caches and the writers are collaborators
  whose code is not part of the sources. Following sections 2, 5 and 6 of the
  specification, the authoritative store holds one sequence of rows per collection, a
  reader serves a collection from its cache and fills the cache from the store on a miss,
  \<open>invalidateCache(key)\<close> empties the cache of one collection, and a writer's positional
  update overwrites the caller's fields on the row with the given row handle. A write
  touches the authoritative store only.
\<close>

record world =
  sheet :: "string \<Rightarrow> obj list"
  cache :: "string \<Rightarrow> obj list option"

text \<open>
  Modelled from the spec: \<open>Reader.getCollection()\<close>, whose code is missing; it serves
  the cached sequence and fills the cache from the store on a miss.
\<close>

definition reader_get :: "string \<Rightarrow> world \<Rightarrow> obj list \<times> world" where
  "reader_get key w =
     (case cache w key of
        Some rows \<Rightarrow> (rows, w)
      | None \<Rightarrow> (sheet w key, w \<lparr> cache := (cache w)(key := Some (sheet w key)) \<rparr>))"

text \<open>
  Modelled from the spec: \<open>Reader.invalidateCache(collectionKey)\<close>, whose code is
  missing; it marks the collection stale.
\<close>

definition invalidateCache :: "string \<Rightarrow> world \<Rightarrow> world" where
  "invalidateCache key w = w \<lparr> cache := (cache w)(key := None) \<rparr>"

text \<open>
  Modelled from the spec: \<open>Writer.updateAt(rowHandle, data, author)\<close>, whose code is
  missing; a shallow overwrite of the caller's fields on the rows with the handle.
\<close>

definition updateAt :: "string \<Rightarrow> jsval \<Rightarrow> obj \<Rightarrow> world \<Rightarrow> world" where
  "updateAt key rowHandle rowData w =
     w \<lparr> sheet := (sheet w)(key :=
           map (\<lambda>row. if field row ''rowIndex'' = rowHandle then spread row rowData else row)
               (sheet w key)) \<rparr>"

text \<open>
  Modelled from the spec: what one effect of a service does to the stores (the writers
  and the cache of the readers are missing from the sources). The row of a potential contact is
  addressed by the number \<open>parseInt\<close> reads from the handle; a created company is stored
  as the data written (the id, row handle and timestamp a writer assigns are left out).
\<close>

fun perform :: "effect \<Rightarrow> world \<Rightarrow> world" where
  "perform (UpdateContactRow rowIndex updateData user) w = updateAt ''contactList'' rowIndex updateData w"
| "perform (UpdateEntryRow rowIndex entryData modifier) w = updateAt ''weeklyBusiness'' rowIndex entryData w"
| "perform (WritePotentialContactRow rowIndex mergedData) w =
     (case parseInt rowIndex of
        None \<Rightarrow> w
      | Some n \<Rightarrow> updateAt ''contacts'' (JNum n) mergedData w)"
| "perform (CreateCompany dataToWrite modifier) w =
     w \<lparr> sheet := (sheet w)(''companyList'' := sheet w ''companyList'' @ [dataToWrite]) \<rparr>"
| "perform (InvalidateCache key) w = invalidateCache key w"

text \<open>The two updates run against the stores, with a writer that succeeds.\<close>

definition run_updateContact :: "world \<Rightarrow> jsval \<Rightarrow> obj \<Rightarrow> jsref \<Rightarrow> (error + ack) \<times> world" where
  "run_updateContact w contactId updateData user =
     (let (allContacts, w1) = reader_get ''contactList'' w;
          (outcome, effects) = updateContact (Inr allContacts) (Inr Success) contactId updateData user
      in (outcome, fold perform effects w1))"


text \<open>
  The two fetches that prefer the federated store, with the sheet reader of the stores
  as the fallback.
\<close>

definition readPreferredContacts :: "error + obj fetched \<Rightarrow> world \<Rightarrow> error + obj list" where
  "readPreferredContacts sqlR w = fetchOfficialContacts sqlR (Inr (fst (reader_get ''contactList'' w)))"


section \<open>The properties, in the words of the specification\<close>

text \<open>
  The pagination law of an envelope for the filtered results, a requested page and the
  page size \<open>P\<close>: the counts and flags of the specification, and as data the slice
  that starts at \<open>(current - 1) * P\<close>, which has at most \<open>P\<close> items and, for the pages
  from 1 on, consists of the \<open>P\<close> results behind the first \<open>(current - 1) * P\<close>.
\<close>

definition pagination_law :: "'a envelope \<Rightarrow> 'a list \<Rightarrow> int \<Rightarrow> nat \<Rightarrow> bool" where
  "pagination_law env results page P \<longleftrightarrow>
     current env = page \<and> totalItems env = length results
     \<and> total env = Fin \<lceil>real (totalItems env) / real P\<rceil>
     \<and> (hasNext env \<longleftrightarrow> current env * int P < int (totalItems env))
     \<and> (hasPrev env \<longleftrightarrow> 1 < current env)
     \<and> data env = js_slice results ((current env - 1) * int P) ((current env - 1) * int P + int P)
     \<and> length (data env) \<le> P
     \<and> (1 \<le> current env \<longrightarrow> data env = take P (drop (nat (current env - 1) * P) results))"

text \<open>
  What the language guarantees of the engine's sort for every comparator, consistent or
  not: the result holds the elements of the array, each as often as the array.
\<close>

definition rearranges :: "(('a \<Rightarrow> 'a \<Rightarrow> jsnum) \<Rightarrow> 'a list \<Rightarrow> 'a list) \<Rightarrow> bool" where
  "rearranges arraySort \<longleftrightarrow>
     (\<forall>cmp xs. set (arraySort cmp xs) = set xs \<and> length (arraySort cmp xs) = length xs)"

text \<open>
  The context name \<open>nm\<close> the specification asks for an interaction \<open>item\<close>: an id is
  present when it is truthy, and it resolves when a record of the other collection
  carries it.
\<close>

definition resolved_context :: "obj list \<Rightarrow> obj list \<Rightarrow> obj \<Rightarrow> jsval \<Rightarrow> bool" where
  "resolved_context opps comps item nm \<longleftrightarrow>
     (let oid = field item ''opportunityId'';
          cid = field item ''companyId'';
          oppFound = (truthy oid \<and> (\<exists>opp \<in> set opps. field opp ''opportunityId'' = oid));
          compFound = (truthy cid \<and> (\<exists>c \<in> set comps. field c ''companyId'' = cid))
      in (oppFound \<longrightarrow>
            (\<exists>opp \<in> set opps. field opp ''opportunityId'' = oid \<and> nm = field opp ''opportunityName''))
       \<and> (\<not> oppFound \<and> compFound \<longrightarrow>
            (\<exists>c \<in> set comps. field c ''companyId'' = cid \<and> nm = field c ''companyName''))
       \<and> (\<not> oppFound \<and> \<not> compFound \<and> truthy oid \<longrightarrow> nm = JStr unknown_opportunity)
       \<and> (\<not> oppFound \<and> \<not> compFound \<and> \<not> truthy oid \<and> truthy cid \<longrightarrow> nm = JStr unknown_company)
       \<and> (\<not> truthy oid \<and> \<not> truthy cid \<longrightarrow> nm = JStr not_specified))"

text \<open>
  A company of the list matches a normalized name when its own name normalizes to it.
\<close>

definition name_matches :: "(jstring \<Rightarrow> jstring) \<Rightarrow> jstring \<Rightarrow> obj \<Rightarrow> bool" where
  "name_matches toLowerCase normalizedTarget c \<longleftrightarrow>
     normalizeCompanyName toLowerCase (field c ''companyName'') = Inr normalizedTarget"

text \<open>
  The existing notes of a row as text, and the generated marker \<open>[author date] \<close> in
  front of new notes.
\<close>

definition existing_notes :: "obj \<Rightarrow> jstring" where
  "existing_notes target =
     (if truthy (field target ''notes'') then to_string (field target ''notes'') else [])"

definition note_marker :: "jsval \<Rightarrow> jstring \<Rightarrow> jstring" where
  "note_marker author today = ascii ''['' @ to_string author @ ascii '' '' @ today @ ascii ''] ''"

text \<open>
  A read of the federated store is unusable when it raised or returned a value that is
  no sequence.
\<close>

definition unusable :: "error + 'a fetched \<Rightarrow> bool" where
  "unusable r \<longleftrightarrow> (\<exists>e. r = Inl e) \<or> (\<exists>v. r = Inr (Scalar v)) \<or> (\<exists>ob. r = Inr (PlainObject ob))"

text \<open>
  The key of a configured stage, the opportunities that belong to a key (in progress and
  of that stage), the group a stage starts with, and a group with the members of a list
  of opportunities added.
\<close>

definition stage_key :: "obj \<Rightarrow> jstring" where
  "stage_key stage = to_string (field stage ''value'')"

definition belongs_to :: "jstring \<Rightarrow> obj \<Rightarrow> bool" where
  "belongs_to k opp \<longleftrightarrow>
     field opp ''currentStatus'' = JStr in_progress \<and> to_string (field opp ''currentStage'') = k"

definition fresh_group :: "obj \<Rightarrow> stage_group" where
  "fresh_group stage =
     \<lparr> name = js_or (field stage ''note'') (field stage ''value''), opportunities = [], count = 0 \<rparr>"

definition add_members :: "obj list \<Rightarrow> jstring \<times> stage_group \<Rightarrow> jstring \<times> stage_group" where
  "add_members opps p =
     (fst p, (snd p) \<lparr> opportunities := opportunities (snd p) @ filter (belongs_to (fst p)) opps,
                      count := count (snd p) + length (filter (belongs_to (fst p)) opps) \<rparr>)"

text \<open>
  A list is in the order the specification asks of a descending date sort on the field
  \<open>k\<close> when no record with an invalid date stands before a record with a valid one.
\<close>

definition invalid_last :: "(jsval \<Rightarrow> int option) \<Rightarrow> string \<Rightarrow> obj list \<Rightarrow> bool" where
  "invalid_last parseDate k xs \<longleftrightarrow>
     (\<forall>i j. i < j \<and> j < length xs \<and> parseDate (field (xs ! i) k) = None
            \<longrightarrow> parseDate (field (xs ! j) k) = None)"

text \<open>
  The days of the week 2026-W04 as \<open>getWeekInfo\<close> lists them, and a date parser that
  knows one date: the timestamp of 2026-01-21 (UTC); \<open>new Date(undefined)\<close> is invalid.
\<close>

definition week3 :: "jstring list" where
  "week3 = map ascii [''2026-01-19'', ''2026-01-20'', ''2026-01-21'', ''2026-01-22'', ''2026-01-23'',
                      ''2026-01-24'', ''2026-01-25'']"

definition parse_known :: "jsval \<Rightarrow> int option" where
  "parse_known v = (if v = JStr (ascii ''2026-01-21'') then Some 1768953600000 else None)"


text \<open>
  The code units of the three suffix tokens and those a token starts with; a blank string
  consists of white space; a one-line string contains no line terminator.
\<close>

definition token_unit :: "nat \<Rightarrow> bool" where
  "token_unit u \<longleftrightarrow> u \<in> {0x80A1, 0x4EFD, 0x6709, 0x9650, 0x516C, 0x53F8}"

definition token_start :: "nat \<Rightarrow> bool" where
  "token_start u \<longleftrightarrow> u \<in> {0x80A1, 0x6709, 0x516C}"

definition blank :: "jstring \<Rightarrow> bool" where
  "blank ws \<longleftrightarrow> (\<forall>u \<in> set ws. is_space u)"

definition one_line :: "jstring \<Rightarrow> bool" where
  "one_line p \<longleftrightarrow> (\<forall>u \<in> set p. \<not> is_line_terminator u)"

text \<open>
  What the variants of a name use of the engine's \<open>toLowerCase\<close>: the empty string stays
  empty; white space in front of a string or behind it stays where it is, with the rest
  lower-cased as it is alone; and a code unit of a suffix token or a parenthesis stays
  where it is, with the text on its two sides lower-cased as each side is alone. The
  Unicode case mapping has these properties. The characters named are uncased, so they
  map to themselves, and they are no halves of a surrogate pair. The one context rule of
  the mapping, for the final sigma, looks from a sigma across case-ignorable characters
  for a cased letter; the ideographs of the tokens and the parentheses are not
  case-ignorable, so the two sides do not see each other, and white space at an end has no
  cased letter on its far side. White space between two letters is left out: U+FEFF is
  case-ignorable.
\<close>

definition keeps_separators :: "(jstring \<Rightarrow> jstring) \<Rightarrow> bool" where
  "keeps_separators toLowerCase \<longleftrightarrow>
     toLowerCase [] = []
     \<and> (\<forall>ws x. blank ws \<longrightarrow> toLowerCase (ws @ x) = ws @ toLowerCase x)
     \<and> (\<forall>ws x. blank ws \<longrightarrow> toLowerCase (x @ ws) = toLowerCase x @ ws)
     \<and> (\<forall>c x y. token_unit c \<or> c = 0x28 \<or> c = 0x29
                 \<longrightarrow> toLowerCase (x @ c # y) = toLowerCase x @ c # toLowerCase y)"

text \<open>
  The first of the tokens appended to the name \<open>s\<close> completes a longer token of the
  pattern with the end of \<open>s\<close>: U+6709 U+9650 U+516C U+53F8 behind U+80A1 U+4EFD, or
  U+516C U+53F8 behind U+6709 U+9650.
\<close>

definition ends_with :: "jstring \<Rightarrow> jstring \<Rightarrow> bool" where
  "ends_with s p = startsWith (rev s) (rev p)"

fun completes_token :: "jstring \<Rightarrow> jstring list \<Rightarrow> bool" where
  "completes_token s [] = False"
| "completes_token s (t # ts) =
     ((t = [0x6709, 0x9650, 0x516C, 0x53F8] \<and> ends_with s [0x80A1, 0x4EFD])
      \<or> (t = [0x516C, 0x53F8] \<and> ends_with s [0x6709, 0x9650]))"

text \<open>
  An opening parenthesis is pending in \<open>s\<close> when it stands in the last line of \<open>s\<close>: no
  line terminator follows it.
\<close>

fun pending_open :: "jstring \<Rightarrow> bool" where
  "pending_open [] = False"
| "pending_open (c # s) = ((c = 0x28 \<and> one_line s) \<or> pending_open s)"

text \<open>
  The text of \<open>s\<close> from its first pending parenthesis on. A pending parenthesis is closed
  with white space when this text holds a closing parenthesis and only white space stands
  behind the last one.
\<close>

fun pending_from :: "jstring \<Rightarrow> jstring" where
  "pending_from [] = []"
| "pending_from (c # s) = (if c = 0x28 \<and> one_line s then c # s else pending_from s)"

definition closed_with_blank :: "jstring \<Rightarrow> bool" where
  "closed_with_blank s \<longleftrightarrow>
     (case last_close (tl (pending_from s)) of
        Some n \<Rightarrow> blank (drop n (tl (pending_from s)))
      | None \<Rightarrow> False)"

section \<open>Objects, maps and slices\<close>

lemma field_assign_same: "field (assign k v ob) k = v"
  by (induction ob) (auto simp: field_def)

lemma field_assign_other: "k' \<noteq> k \<Longrightarrow> field (assign k v ob) k' = field ob k'"
  by (induction ob) (auto simp: field_def)

lemma map_has_js_Map: "map_has (js_Map pairs) k \<longleftrightarrow> k \<in> fst ` set pairs"
  by (simp add: map_has_def js_Map_def map_of_eq_None_iff)

lemma map_get_js_Map:
  "map_has (js_Map pairs) k \<Longrightarrow> (k, map_get (js_Map pairs) k) \<in> set pairs"
proof -
  assume "map_has (js_Map pairs) k"
  then obtain v where v: "map_of (rev pairs) k = Some v"
    by (auto simp: map_has_def js_Map_def)
  then have "(k, v) \<in> set (rev pairs)" by (rule map_of_SomeD)
  with v show ?thesis by (simp add: map_get_def js_Map_def)
qed

lemma js_slice_length_le:
  "0 \<le> w \<Longrightarrow> length (js_slice xs s (s + w)) \<le> nat w"
  by (auto simp: js_slice_def Let_def min_def max_def)

lemma js_slice_take_drop:
  assumes "0 \<le> s"
  shows "js_slice xs s (s + int P) = take P (drop (nat s) xs)"
proof (cases "s \<le> int (length xs)")
  case True
  then have "js_slice xs s (s + int P) = take (nat (min (s + int P) (int (length xs)) - s)) (drop (nat s) xs)"
    using assms by (simp add: js_slice_def Let_def min_def)
  also have "\<dots> = take (min P (length xs - nat s)) (drop (nat s) xs)"
  proof -
    have "nat (min (s + int P) (int (length xs)) - s) = min P (length xs - nat s)"
      using assms True by arith
    then show ?thesis by simp
  qed
  also have "\<dots> = take P (drop (nat s) xs)"
    by (simp add: min_def)
  finally show ?thesis .
next
  case False
  then show ?thesis using assms by (simp add: js_slice_def Let_def min_def)
qed

lemma ceil_div_ceiling:
  assumes "0 < P"
  shows "ceil_div n P = Fin \<lceil>real n / real P\<rceil>"
proof -
  have "\<lceil>real n / real P\<rceil> = \<lceil>(of_int (int n) :: real) / of_int (int P)\<rceil>" by simp
  also have "\<dots> = - (- int n div int P)" by (rule ceiling_divide_eq_div)
  finally show ?thesis using assms by (simp add: ceil_div_def)
qed

lemma field_spread:
  "field (spread a b) k = (case map_of (rev b) k of Some v \<Rightarrow> v | None \<Rightarrow> field a k)"
proof (induction b arbitrary: a)
  case Nil
  then show ?case by (simp add: spread_def)
next
  case (Cons p ps)
  have "field (spread a (p # ps)) k = field (spread (assign (fst p) (snd p) a) ps) k"
    by (simp add: spread_def)
  also have "\<dots> = (case map_of (rev ps) k of Some v \<Rightarrow> v
                     | None \<Rightarrow> field (assign (fst p) (snd p) a) k)"
    by (rule Cons.IH)
  also have "\<dots> = (case map_of (rev (p # ps)) k of Some v \<Rightarrow> v | None \<Rightarrow> field a k)"
    by (cases p) (auto simp: map_add_def field_assign_same field_assign_other split: option.splits)
  finally show ?case .
qed

lemma set_insert_by: "set (insert_by cmp x ys) = insert x (set ys)"
  by (induction ys) auto

lemma set_array_sort: "set (array_sort cmp xs) = set xs"
  by (induction xs) (simp_all add: array_sort_def set_insert_by)

lemma length_insert_by: "length (insert_by cmp x ys) = Suc (length ys)"
  by (induction ys) auto

lemma length_array_sort: "length (array_sort cmp xs) = length xs"
  by (induction xs) (simp_all add: array_sort_def length_insert_by)

lemma array_sort_rearranges: "rearranges array_sort"
  by (simp add: rearranges_def set_array_sort length_array_sort)

lemma set_filterE: "filterE p xs = Inr ys \<Longrightarrow> set ys \<subseteq> set xs"
  by (induction xs arbitrary: ys) (auto split: sum.splits if_splits)

lemma set_js_slice: "set (js_slice xs s e) \<subseteq> set xs"
proof -
  have "set (take n (drop m xs)) \<subseteq> set xs" for n m
    using set_take_subset [of n "drop m xs"] set_drop_subset [of m xs] by blast
  then show ?thesis by (simp add: js_slice_def Let_def)
qed

lemmas normalize_eval =
  normalizeCompanyName_def normalizeName_def ascii_def basic_latin_lower_def lower_unit_def trim_def
  is_space_def is_line_terminator_def suffix_tokens_def field_def

section \<open>Pagination\<close>

lemma paginate_law:
  assumes "0 < P"
  shows "pagination_law (paginate results page P) results page P"
proof -
  have "length (data (paginate results page P)) \<le> P"
    using js_slice_length_le [of "int P" results "(page - 1) * int P"]
    by (simp add: paginate_def Let_def)
  moreover have "data (paginate results page P) = take P (drop (nat (page - 1) * P) results)"
    if "1 \<le> page"
  proof -
    have "0 \<le> (page - 1) * int P" using that by simp
    moreover have "nat ((page - 1) * int P) = nat (page - 1) * P"
      using that by (simp add: nat_mult_distrib)
    ultimately show ?thesis
      using js_slice_take_drop [of "(page - 1) * int P" results P]
      by (simp add: paginate_def Let_def)
  qed
  moreover have "total (paginate results page P) = Fin \<lceil>real (length results) / real P\<rceil>"
    using assms by (simp add: paginate_def Let_def ceil_div_ceiling)
  moreover have "hasNext (paginate results page P) \<longleftrightarrow> page * int P < int (length results)"
    by (simp add: paginate_def Let_def algebra_simps)
  ultimately show ?thesis
    by (simp add: pagination_law_def) (simp add: paginate_def Let_def)
qed

text \<open>
  C5. For filtered results of \<open>N\<close> items and a page size \<open>P > 0\<close>, the envelope of a
  paginated search (\<open>searchOfficialContacts\<close>, and \<open>searchInteractions\<close> without
  \<open>fetchAll\<close>) has \<open>total = ceil(N / P)\<close>, \<open>hasNext\<close> exactly when \<open>current * P < N\<close>,
  \<open>hasPrev\<close> exactly when \<open>current > 1\<close>, and as \<open>data\<close> the slice of the filtered results
  that starts at \<open>(current - 1) * P\<close> and has at most \<open>P\<close> items.
\<close>

theorem pagination_envelope:
  assumes "0 < P"
  shows "(officialContactResults toLowerCase sqlR sheetR companiesR query = Inr results
            \<and> contactsPageSize cfg = Some P
          \<longrightarrow> (\<exists>env. searchOfficialContacts toLowerCase sqlR sheetR companiesR cfg query page = Inr env
                     \<and> pagination_law env results page P))
       \<and> (interactionResults arraySort toLowerCase parseDate iR oR cR iquery = Inr iresults
            \<and> interactionsPageSize icfg = P
          \<longrightarrow> (\<exists>env. searchInteractions arraySort toLowerCase parseDate iR oR cR icfg iquery
                       page False = Inr env
                     \<and> pagination_law env iresults page P))"
  by (simp add: searchOfficialContacts_def searchInteractions_def paginate_law [OF assms])

theorem pagination_envelope_witness:
  "\<exists>env. searchOfficialContacts basic_latin_lower (Inl (SourceError ''sql down''))
            (Inr [[(''companyId'', JStr (ascii ''K1''))], [(''companyId'', JStr (ascii ''K2''))],
                  [(''companyId'', JStr (ascii ''K3''))]])
            (Inr []) (Some \<lparr> PAGINATION = Some \<lparr> CONTACTS_PER_PAGE = Some 2,
                                                INTERACTIONS_PER_PAGE = None \<rparr> \<rparr>) None 2 = Inr env
         \<and> total env = Fin 2 \<and> \<not> hasNext env \<and> hasPrev env
         \<and> data env = [[(''companyId'', JStr (ascii ''K3'')), (''companyName'', JStr (ascii ''K3''))]]"
proof -
  let ?contacts = "[[(''companyId'', JStr (ascii ''K1''))], [(''companyId'', JStr (ascii ''K2''))],
                    [(''companyId'', JStr (ascii ''K3''))]]"
  let ?cfg = "Some \<lparr> PAGINATION = Some \<lparr> CONTACTS_PER_PAGE = Some 2, INTERACTIONS_PER_PAGE = None \<rparr> \<rparr>"
  let ?results = "joinContacts ?contacts []"
  have h: "officialContactResults basic_latin_lower (Inl (SourceError ''sql down'')) (Inr ?contacts)
             (Inr []) None = Inr ?results
           \<and> contactsPageSize ?cfg = Some 2"
    by (simp add: officialContactResults_def fetchOfficialContacts_def contactsPageSize_def)
  have r: "?results = [[(''companyId'', JStr (ascii ''K1'')), (''companyName'', JStr (ascii ''K1''))],
                       [(''companyId'', JStr (ascii ''K2'')), (''companyName'', JStr (ascii ''K2''))],
                       [(''companyId'', JStr (ascii ''K3'')), (''companyName'', JStr (ascii ''K3''))]]"
    by (simp add: joinContacts_def compMap_of_def js_Map_def map_get_def js_or_def field_def ascii_def)
  have "(2::nat) > 0" by simp
  from pagination_envelope [OF this, of basic_latin_lower "Inl (SourceError ''sql down'')"
         "Inr ?contacts" "Inr []" None ?results ?cfg 2, THEN conjunct1] h
  obtain env where e: "searchOfficialContacts basic_latin_lower (Inl (SourceError ''sql down''))
                         (Inr ?contacts) (Inr []) ?cfg None 2 = Inr env"
    and l: "pagination_law env ?results 2 2"
    by blast
  from l have "total env = Fin 2 \<and> \<not> hasNext env \<and> hasPrev env \<and> data env = take 2 (drop 2 ?results)"
    by (simp add: pagination_law_def r js_slice_def)
  with e r show ?thesis by simp
qed

section \<open>InteractionService: the context name\<close>

lemma oppMap_has:
  "map_has (oppMap_of opps) k \<longleftrightarrow> (\<exists>opp \<in> set opps. field opp ''opportunityId'' = k)"
  by (force simp: oppMap_of_def map_has_js_Map image_iff)

lemma oppMap_get:
  "map_has (oppMap_of opps) k \<Longrightarrow>
   \<exists>opp \<in> set opps. field opp ''opportunityId'' = k
                  \<and> map_get (oppMap_of opps) k = field opp ''opportunityName''"
  using map_get_js_Map [of "map (\<lambda>opp. (field opp ''opportunityId'', field opp ''opportunityName'')) opps" k]
  by (auto simp: oppMap_of_def)

lemma compMap_has:
  "map_has (compMap_of comps) k \<longleftrightarrow> (\<exists>c \<in> set comps. field c ''companyId'' = k)"
  by (force simp: compMap_of_def map_has_js_Map image_iff)

lemma compMap_get:
  "map_has (compMap_of comps) k \<Longrightarrow>
   \<exists>c \<in> set comps. field c ''companyId'' = k
                 \<and> map_get (compMap_of comps) k = field c ''companyName''"
  using map_get_js_Map [of "map (\<lambda>c. (field c ''companyId'', field c ''companyName'')) comps" k]
  by (auto simp: compMap_of_def)

lemma contextName_resolved:
  "resolved_context opps comps item (contextName (oppMap_of opps) (compMap_of comps) item)"
  unfolding resolved_context_def Let_def contextName_def
  using oppMap_get [of opps "field item ''opportunityId''"]
        compMap_get [of comps "field item ''companyId''"]
  by (auto simp: oppMap_has compMap_has)

text \<open>Every record of the join is an interaction with its resolved context name attached.\<close>

lemma joined_resolved:
  assumes "r \<in> set (joinInteractions ints opps comps)"
  shows "\<exists>item \<in> set ints. \<exists>nm. resolved_context opps comps item nm
                                  \<and> r = assign ''opportunityName'' nm item
                                  \<and> field r ''opportunityName'' = nm"
proof -
  from assms obtain item where i: "item \<in> set ints"
    and r: "r = assign ''opportunityName'' (contextName (oppMap_of opps) (compMap_of comps) item) item"
    by (auto simp: joinInteractions_def)
  let ?nm = "contextName (oppMap_of opps) (compMap_of comps) item"
  have "resolved_context opps comps item ?nm" by (rule contextName_resolved)
  moreover have "field r ''opportunityName'' = ?nm" by (simp add: r field_assign_same)
  ultimately show ?thesis using i r by blast
qed

lemma resolved_joined:
  assumes "item \<in> set ints"
  shows "\<exists>nm. resolved_context opps comps item nm
              \<and> assign ''opportunityName'' nm item \<in> set (joinInteractions ints opps comps)"
proof -
  let ?nm = "contextName (oppMap_of opps) (compMap_of comps) item"
  have "resolved_context opps comps item ?nm" by (rule contextName_resolved)
  moreover have "assign ''opportunityName'' ?nm item \<in> set (joinInteractions ints opps comps)"
    using assms by (simp add: joinInteractions_def)
  ultimately show ?thesis by blast
qed

text \<open>What the search returns is taken from the sorted results.\<close>

lemma search_data_subset:
  assumes "searchInteractions arraySort toLowerCase parseDate iR oR cR cfg query page fetchAll = Inr env"
  shows "\<exists>results. interactionResults arraySort toLowerCase parseDate iR oR cR query = Inr results
                   \<and> set (data env) \<subseteq> set results"
proof (cases "interactionResults arraySort toLowerCase parseDate iR oR cR query")
  case (Inl e)
  with assms show ?thesis by (simp add: searchInteractions_def)
next
  case (Inr results)
  with assms have "data env = results
                   \<or> data env = js_slice results ((page - 1) * int (interactionsPageSize cfg))
                                  ((page - 1) * int (interactionsPageSize cfg)
                                     + int (interactionsPageSize cfg))"
    by (auto simp: searchInteractions_def paginate_def Let_def split: if_splits)
  then have "set (data env) \<subseteq> set results"
    using set_js_slice [of results "(page - 1) * int (interactionsPageSize cfg)"
            "(page - 1) * int (interactionsPageSize cfg) + int (interactionsPageSize cfg)"]
    by (elim disjE) simp_all
  with Inr show ?thesis by simp
qed

lemma results_subset_joined:
  assumes "rearranges arraySort"
    and "interactionResults arraySort toLowerCase parseDate (Inr ints) (Inr opps) (Inr comps) query
           = Inr results"
  shows "set results \<subseteq> set (joinInteractions ints opps comps)"
proof -
  from assms(2) obtain filtered where
    f: "filtered = joinInteractions ints opps comps
        \<or> filterE (interactionMatches toLowerCase (toLowerCase (the query)))
             (joinInteractions ints opps comps) = Inr filtered"
    and r: "results = arraySort (\<lambda>a b. cmpDateDesc parseDate (field a ''interactionTime'')
                                                            (field b ''interactionTime'')) filtered"
    by (auto simp: interactionResults_def Let_def split: option.splits if_splits sum.splits)
  from f have "set filtered \<subseteq> set (joinInteractions ints opps comps)"
    using set_filterE by blast
  moreover have "set results = set filtered"
    using assms(1) r by (simp add: rearranges_def)
  ultimately show ?thesis by simp
qed

text \<open>
  C8. For the interactions, opportunities and companies the three readers serve,
  \<open>searchInteractions\<close> without a query always returns: no id, dangling or not, raises
  an error. With \<open>fetchAll\<close> it returns the sorted join, one record for every interaction
  read, and every interaction is in it with the context name of the specification
  attached as \<open>opportunityName\<close>: the opportunity's name when the opportunity id resolves,
  else the company's name when the company id resolves, else the placeholder of an unknown
  opportunity or an unknown company when that id is present, else the sentinel
  "not specified". For every query, page and mode, each record the search returns is an
  interaction read with that context name attached, and an error of the search is the
  error of the text filter, not of the join. The engine's sort is any function that
  rearranges its array.
\<close>

theorem context_name_resolution:
  assumes "rearranges arraySort"
  shows "(\<exists>env. searchInteractions arraySort toLowerCase parseDate (Inr ints) (Inr opps) (Inr comps)
                  cfg None page fetchAll = Inr env)
       \<and> (\<exists>env. searchInteractions arraySort toLowerCase parseDate (Inr ints) (Inr opps) (Inr comps)
                  cfg None page True = Inr env
                \<and> data env = arraySort (\<lambda>a b. cmpDateDesc parseDate (field a ''interactionTime'')
                                                                   (field b ''interactionTime''))
                                       (joinInteractions ints opps comps)
                \<and> length (data env) = length ints
                \<and> (\<forall>item \<in> set ints. \<exists>nm. resolved_context opps comps item nm
                        \<and> assign ''opportunityName'' nm item \<in> set (data env)))
       \<and> (\<forall>env. searchInteractions arraySort toLowerCase parseDate (Inr ints) (Inr opps) (Inr comps)
                  cfg query page fetchAll = Inr env
              \<longrightarrow> (\<forall>r \<in> set (data env). \<exists>item \<in> set ints. \<exists>nm.
                       resolved_context opps comps item nm
                       \<and> r = assign ''opportunityName'' nm item
                       \<and> field r ''opportunityName'' = nm))
       \<and> (\<forall>e. searchInteractions arraySort toLowerCase parseDate (Inr ints) (Inr opps) (Inr comps)
                  cfg query page fetchAll = Inl e
              \<longrightarrow> (\<exists>q. query = Some q
                       \<and> filterE (interactionMatches toLowerCase (toLowerCase q))
                            (joinInteractions ints opps comps) = Inl e))"
proof (intro conjI allI impI)
  show "\<exists>env. searchInteractions arraySort toLowerCase parseDate (Inr ints) (Inr opps) (Inr comps)
                 cfg None page fetchAll = Inr env"
    by (simp add: searchInteractions_def interactionResults_def)
next
  let ?cmp = "\<lambda>a b. cmpDateDesc parseDate (field a ''interactionTime'') (field b ''interactionTime'')"
  let ?joined = "joinInteractions ints opps comps"
  let ?env = "\<lparr> data = arraySort ?cmp ?joined, current = 1, total = Fin 1,
                totalItems = length (arraySort ?cmp ?joined), hasNext = False, hasPrev = False \<rparr>"
  have s: "searchInteractions arraySort toLowerCase parseDate (Inr ints) (Inr opps) (Inr comps)
             cfg None page True = Inr ?env"
    by (simp add: searchInteractions_def interactionResults_def)
  have l: "length (arraySort ?cmp ?joined) = length ints"
    using assms by (simp add: rearranges_def joinInteractions_def)
  have m: "set (arraySort ?cmp ?joined) = set ?joined"
    using assms by (simp add: rearranges_def)
  have "\<forall>item \<in> set ints. \<exists>nm. resolved_context opps comps item nm
            \<and> assign ''opportunityName'' nm item \<in> set (arraySort ?cmp ?joined)"
    using resolved_joined [of _ ints opps comps] by (simp only: m) blast
  with s l show "\<exists>env. searchInteractions arraySort toLowerCase parseDate (Inr ints) (Inr opps) (Inr comps)
                  cfg None page True = Inr env
                \<and> data env = arraySort ?cmp ?joined
                \<and> length (data env) = length ints
                \<and> (\<forall>item \<in> set ints. \<exists>nm. resolved_context opps comps item nm
                        \<and> assign ''opportunityName'' nm item \<in> set (data env))"
    by (intro exI [of _ ?env]) simp
next
  fix env
  assume a: "searchInteractions arraySort toLowerCase parseDate (Inr ints) (Inr opps) (Inr comps)
               cfg query page fetchAll = Inr env"
  from search_data_subset [OF a] obtain results where
    r: "interactionResults arraySort toLowerCase parseDate (Inr ints) (Inr opps) (Inr comps) query
          = Inr results"
    and d: "set (data env) \<subseteq> set results"
    by blast
  from results_subset_joined [OF assms r] d
  have "set (data env) \<subseteq> set (joinInteractions ints opps comps)" by simp
  then show "\<forall>r \<in> set (data env). \<exists>item \<in> set ints. \<exists>nm.
               resolved_context opps comps item nm
               \<and> r = assign ''opportunityName'' nm item
               \<and> field r ''opportunityName'' = nm"
    using joined_resolved [of _ ints opps comps] by blast
next
  fix e
  assume "searchInteractions arraySort toLowerCase parseDate (Inr ints) (Inr opps) (Inr comps)
            cfg query page fetchAll = Inl e"
  then show "\<exists>q. query = Some q
               \<and> filterE (interactionMatches toLowerCase (toLowerCase q))
                    (joinInteractions ints opps comps) = Inl e"
    by (auto simp: searchInteractions_def interactionResults_def Let_def
             split: option.splits if_splits sum.splits)
qed

text \<open>
  Three interactions with the times 1, 3 and 2 (milliseconds, as \<open>new Date\<close> reads a
  number): a dangling opportunity id, a company id that resolves, and no id at all.
\<close>

theorem context_name_resolution_witness:
  "\<exists>env. searchInteractions array_sort basic_latin_lower (\<lambda>v. case v of JNum n \<Rightarrow> Some n | _ \<Rightarrow> None)
            (Inr [[(''opportunityId'', JStr (ascii ''OPP9'')), (''interactionTime'', JNum 1)],
                  [(''companyId'', JStr (ascii ''C1'')), (''interactionTime'', JNum 3)],
                  [(''interactionTime'', JNum 2)]])
            (Inr [[(''opportunityId'', JStr (ascii ''OPP1'')), (''opportunityName'', JStr (ascii ''Deal''))]])
            (Inr [[(''companyId'', JStr (ascii ''C1'')), (''companyName'', JStr (ascii ''Acme''))]])
            None None 1 True = Inr env
        \<and> data env
            = [[(''companyId'', JStr (ascii ''C1'')), (''interactionTime'', JNum 3),
                (''opportunityName'', JStr (ascii ''Acme''))],
               [(''interactionTime'', JNum 2), (''opportunityName'', JStr not_specified)],
               [(''opportunityId'', JStr (ascii ''OPP9'')), (''interactionTime'', JNum 1),
                (''opportunityName'', JStr unknown_opportunity)]]"
proof -
  let ?parse = "\<lambda>v. case v of JNum n \<Rightarrow> Some n | _ \<Rightarrow> None"
  let ?ints = "[[(''opportunityId'', JStr (ascii ''OPP9'')), (''interactionTime'', JNum 1)],
                [(''companyId'', JStr (ascii ''C1'')), (''interactionTime'', JNum 3)],
                [(''interactionTime'', JNum 2)]]"
  let ?opps = "[[(''opportunityId'', JStr (ascii ''OPP1'')), (''opportunityName'', JStr (ascii ''Deal''))]]"
  let ?comps = "[[(''companyId'', JStr (ascii ''C1'')), (''companyName'', JStr (ascii ''Acme''))]]"
  from context_name_resolution [OF array_sort_rearranges, of basic_latin_lower ?parse ?ints ?opps ?comps
         None 1 True None, THEN conjunct2, THEN conjunct1]
  obtain env where
    s: "searchInteractions array_sort basic_latin_lower ?parse (Inr ?ints) (Inr ?opps) (Inr ?comps)
          None None 1 True = Inr env"
    and d: "data env = array_sort (\<lambda>a b. cmpDateDesc ?parse (field a ''interactionTime'')
                                                          (field b ''interactionTime''))
                         (joinInteractions ?ints ?opps ?comps)"
    by blast
  have "array_sort (\<lambda>a b. cmpDateDesc ?parse (field a ''interactionTime'') (field b ''interactionTime''))
          (joinInteractions ?ints ?opps ?comps)
        = [[(''companyId'', JStr (ascii ''C1'')), (''interactionTime'', JNum 3),
            (''opportunityName'', JStr (ascii ''Acme''))],
           [(''interactionTime'', JNum 2), (''opportunityName'', JStr not_specified)],
           [(''opportunityId'', JStr (ascii ''OPP9'')), (''interactionTime'', JNum 1),
            (''opportunityName'', JStr unknown_opportunity)]]"
    by (simp add: joinInteractions_def contextName_def oppMap_of_def compMap_of_def js_Map_def
          map_has_def map_get_def field_def ascii_def array_sort_def cmpDateDesc_def)
  with s d show ?thesis by simp
qed

section \<open>CompanyService: creating a company\<close>

lemma normalizeCompanyName_cases:
  "normalizeCompanyName toLowerCase v = Inl TypeError \<or> (\<exists>n. normalizeCompanyName toLowerCase v = Inr n)"
  by (cases v) (auto simp: normalizeCompanyName_def)

lemma find_company_Some:
  "find_company toLowerCase t cs = Inr (Some c) \<Longrightarrow> c \<in> set cs \<and> name_matches toLowerCase t c"
  by (induction cs) (auto simp: name_matches_def split: sum.splits if_splits)

lemma find_company_None:
  "find_company toLowerCase t cs = Inr None \<Longrightarrow> \<forall>c \<in> set cs. \<not> name_matches toLowerCase t c"
  by (induction cs) (auto simp: name_matches_def split: sum.splits if_splits)

lemma find_company_total:
  "\<forall>c \<in> set cs. normalizeCompanyName toLowerCase (field c ''companyName'') \<noteq> Inl TypeError \<Longrightarrow>
   \<exists>r. find_company toLowerCase t cs = Inr r"
proof (induction cs)
  case Nil
  then show ?case by simp
next
  case (Cons c cs)
  then obtain n where "normalizeCompanyName toLowerCase (field c ''companyName'') = Inr n"
    using normalizeCompanyName_cases [of toLowerCase "field c ''companyName''"] by auto
  with Cons show ?case by auto
qed

text \<open>
  C10. When the normalized name of a \<open>createCompany\<close> call matches the normalized name
  of a company of the list, the call returns the literal with \<open>success\<close> and \<open>existed\<close>
  true and the existing company's id, name and data, and performs no write and no cache
  invalidation (its list of effects is empty); and whenever the writer's \<open>createCompany\<close>
  is among the effects, no company of the list matches. The call gets that far for a user
  that is neither \<open>null\<close> nor \<open>undefined\<close> and names that are strings or falsy.
\<close>

theorem create_company_idempotent:
  "(company_modifier user = Inr modifier
      \<and> normalizeCompanyName toLowerCase companyName = Inr normalizedTarget
      \<and> (\<forall>c \<in> set companies. normalizeCompanyName toLowerCase (field c ''companyName'') \<noteq> Inl TypeError)
      \<and> (\<exists>c \<in> set companies. name_matches toLowerCase normalizedTarget c)
    \<longrightarrow> (\<exists>existing \<in> set companies. name_matches toLowerCase normalizedTarget existing
           \<and> createCompany toLowerCase (Inr companies) writerR hasInvalidate companyName companyData user
               = (Inr (CompanyExists True (field existing ''companyId'') (field existing ''companyName'')
                         company_exists_message True existing), [])))
   \<and> (CreateCompany written author \<in> set (snd (createCompany toLowerCase (Inr companies) writerR hasInvalidate
                                               companyName companyData user))
    \<longrightarrow> (\<exists>target. normalizeCompanyName toLowerCase companyName = Inr target
                  \<and> \<not> (\<exists>c \<in> set companies. name_matches toLowerCase target c)))"
proof (intro conjI impI)
  assume a: "company_modifier user = Inr modifier
      \<and> normalizeCompanyName toLowerCase companyName = Inr normalizedTarget
      \<and> (\<forall>c \<in> set companies. normalizeCompanyName toLowerCase (field c ''companyName'') \<noteq> Inl TypeError)
      \<and> (\<exists>c \<in> set companies. name_matches toLowerCase normalizedTarget c)"
  then obtain r where r: "find_company toLowerCase normalizedTarget companies = Inr r"
    using find_company_total by blast
  have "r \<noteq> None"
  proof
    assume "r = None"
    with r have "\<forall>c \<in> set companies. \<not> name_matches toLowerCase normalizedTarget c"
      using find_company_None by simp
    with a show False by blast
  qed
  then obtain existing where e: "r = Some existing" by auto
  with r have "existing \<in> set companies \<and> name_matches toLowerCase normalizedTarget existing"
    using find_company_Some by blast
  moreover have "createCompany toLowerCase (Inr companies) writerR hasInvalidate companyName companyData user
               = (Inr (CompanyExists True (field existing ''companyId'') (field existing ''companyName'')
                         company_exists_message True existing), [])"
    using a r e by (simp add: createCompany_def)
  ultimately show "\<exists>existing \<in> set companies. name_matches toLowerCase normalizedTarget existing
           \<and> createCompany toLowerCase (Inr companies) writerR hasInvalidate companyName companyData user
               = (Inr (CompanyExists True (field existing ''companyId'') (field existing ''companyName'')
                         company_exists_message True existing), [])"
    by blast
next
  assume w: "CreateCompany written author \<in> set (snd (createCompany toLowerCase (Inr companies) writerR hasInvalidate
                                               companyName companyData user))"
  then obtain target where t: "normalizeCompanyName toLowerCase companyName = Inr target"
    and f: "find_company toLowerCase target companies = Inr None"
    by (auto simp: createCompany_def Let_def split: sum.splits option.splits if_splits)
  from f have "\<not> (\<exists>c \<in> set companies. name_matches toLowerCase target c)"
    using find_company_None by blast
  with t show "\<exists>target. normalizeCompanyName toLowerCase companyName = Inr target
                  \<and> \<not> (\<exists>c \<in> set companies. name_matches toLowerCase target c)"
    by blast
qed

theorem create_company_idempotent_witness:
  "createCompany basic_latin_lower
      (Inr [[(''companyId'', JStr (ascii ''COM1'')),
             (''companyName'', JStr (ascii ''Acme '' @ [0x516C, 0x53F8]))]])
      (Inr (0::nat)) True (JStr (ascii '' ACME'')) [] (Object [(''displayName'', JStr (ascii ''Bob''))])
     = (Inr (CompanyExists True (JStr (ascii ''COM1'')) (JStr (ascii ''Acme '' @ [0x516C, 0x53F8]))
               company_exists_message True
               [(''companyId'', JStr (ascii ''COM1'')),
                (''companyName'', JStr (ascii ''Acme '' @ [0x516C, 0x53F8]))]), [])
   \<and> \<not> (\<exists>c \<in> set [[(''companyId'', JStr (ascii ''COM1'')),
                      (''companyName'', JStr (ascii ''Acme '' @ [0x516C, 0x53F8]))]].
           name_matches basic_latin_lower (ascii ''other'') c)"
proof -
  let ?c = "[(''companyId'', JStr (ascii ''COM1'')),
             (''companyName'', JStr (ascii ''Acme '' @ [0x516C, 0x53F8]))]"
  let ?u = "Object [(''displayName'', JStr (ascii ''Bob''))]"
  have n1: "normalizeCompanyName basic_latin_lower (JStr (ascii '' ACME'')) = Inr (ascii ''acme'')"
    by (simp add: normalize_eval)
  have n2: "normalizeCompanyName basic_latin_lower (field ?c ''companyName'') = Inr (ascii ''acme'')"
    by (simp add: normalize_eval)
  have n3: "normalizeCompanyName basic_latin_lower (JStr (ascii ''Other'')) = Inr (ascii ''other'')"
    by (simp add: normalize_eval)
  have m: "company_modifier ?u = Inr (Prim (JStr (ascii ''Bob'')))"
    by (simp add: company_modifier_def field_def ascii_def)
  have a: "company_modifier ?u = Inr (Prim (JStr (ascii ''Bob'')))
      \<and> normalizeCompanyName basic_latin_lower (JStr (ascii '' ACME'')) = Inr (ascii ''acme'')
      \<and> (\<forall>c \<in> set [?c]. normalizeCompanyName basic_latin_lower (field c ''companyName'') \<noteq> Inl TypeError)
      \<and> (\<exists>c \<in> set [?c]. name_matches basic_latin_lower (ascii ''acme'') c)"
    using n1 n2 m by (simp add: name_matches_def)
  have first: "createCompany basic_latin_lower (Inr [?c]) (Inr (0::nat)) True (JStr (ascii '' ACME'')) [] ?u
     = (Inr (CompanyExists True (JStr (ascii ''COM1'')) (JStr (ascii ''Acme '' @ [0x516C, 0x53F8]))
               company_exists_message True ?c), [])"
    using create_company_idempotent
            [where toLowerCase = basic_latin_lower and user = ?u and modifier = "Prim (JStr (ascii ''Bob''))"
               and companyName = "JStr (ascii '' ACME'')" and normalizedTarget = "ascii ''acme''"
               and companies = "[?c]" and writerR = "Inr (0::nat)" and hasInvalidate = True
               and companyData = "[]", THEN conjunct1] a
    by (simp add: field_def)
  have ne: "ascii ''other'' \<noteq> ascii ''acme''" by (simp add: ascii_def)
  have w: "CreateCompany [(''companyName'', JStr (ascii ''Other''))] (Prim (JStr (ascii ''Bob'')))
             \<in> set (snd (createCompany basic_latin_lower (Inr [?c]) (Inr (0::nat)) True (JStr (ascii ''Other'')) [] ?u))"
    using n2 n3 m ne by (simp add: createCompany_def spread_def)
  have second: "\<not> (\<exists>c \<in> set [?c]. name_matches basic_latin_lower (ascii ''other'') c)"
    using create_company_idempotent
            [where toLowerCase = basic_latin_lower and user = ?u and companyName = "JStr (ascii ''Other'')" and companies = "[?c]"
               and writerR = "Inr (0::nat)" and hasInvalidate = True and companyData = "[]"
               and written = "[(''companyName'', JStr (ascii ''Other''))]"
               and author = "Prim (JStr (ascii ''Bob''))", THEN conjunct2] w n3
    by simp
  from first second show ?thesis by simp
qed

section \<open>ContactService: merging a potential contact\<close>

lemma appendNotes_notes:
  "truthy (field updateData ''notes'') \<Longrightarrow>
   field (appendNotes target updateData modifier today merged) ''notes''
     = JStr (existing_notes target @ (if existing_notes target = [] then [] else [10])
             @ note_marker modifier today @ to_string (field updateData ''notes''))"
  apply (cases "field target ''notes''")
  apply (auto simp: appendNotes_def Let_def field_assign_same existing_notes_def note_marker_def
                   newNoteEntry_def js_or_def ascii_def)
  done

lemma appendNotes_other:
  "k \<noteq> ''notes'' \<or> \<not> truthy (field updateData ''notes'') \<Longrightarrow>
   field (appendNotes target updateData modifier today merged) k = field merged k"
  by (auto simp: appendNotes_def Let_def field_assign_other)

text \<open>
  C9. \<open>updatePotentialContact\<close> on an existing row writes a merged row and then
  invalidates the cache of the collection. With truthy (non-empty) notes supplied, the
  notes written are the existing notes, a line break when there are existing notes, the
  marker \<open>[author date] \<close> and the new notes: nothing of the existing notes is lost.
  Every other field supplied by the caller overwrites the field of the existing row, and
  a field the caller did not supply keeps the existing value.
\<close>

theorem potential_contact_merge:
  assumes "find (\<lambda>c. case parseInt rowIndex of None \<Rightarrow> False
                                            | Some n \<Rightarrow> field c ''rowIndex'' = JNum n) allContacts
           = Some target"
  shows "\<exists>mergedData.
           updatePotentialContact (Inr allContacts) (Inr r) today rowIndex updateData modifier
             = (Inr Success, [WritePotentialContactRow rowIndex mergedData, InvalidateCache ''contacts''])
         \<and> (truthy (field updateData ''notes'') \<longrightarrow>
              field mergedData ''notes''
                = JStr (existing_notes target @ (if existing_notes target = [] then [] else [10])
                        @ note_marker modifier today @ to_string (field updateData ''notes'')))
         \<and> (\<forall>k. k \<noteq> ''notes'' \<or> \<not> truthy (field updateData ''notes'') \<longrightarrow>
                field mergedData k
                  = (case map_of (rev updateData) k of Some v \<Rightarrow> v | None \<Rightarrow> field target k))"
proof -
  let ?m = "appendNotes target updateData modifier today (spread target updateData)"
  have "updatePotentialContact (Inr allContacts) (Inr r) today rowIndex updateData modifier
          = (Inr Success, [WritePotentialContactRow rowIndex ?m, InvalidateCache ''contacts''])"
    using assms by (simp add: updatePotentialContact_def)
  moreover have "truthy (field updateData ''notes'') \<longrightarrow>
              field ?m ''notes''
                = JStr (existing_notes target @ (if existing_notes target = [] then [] else [10])
                        @ note_marker modifier today @ to_string (field updateData ''notes''))"
    by (simp add: appendNotes_notes)
  moreover have "\<forall>k. k \<noteq> ''notes'' \<or> \<not> truthy (field updateData ''notes'') \<longrightarrow>
                field ?m k = (case map_of (rev updateData) k of Some v \<Rightarrow> v | None \<Rightarrow> field target k)"
    using appendNotes_other [of _ updateData target modifier today "spread target updateData"]
    by (simp add: field_spread)
  ultimately show ?thesis by blast
qed

theorem potential_contact_merge_witness:
  "\<exists>mergedData.
     updatePotentialContact
        (Inr [[(''rowIndex'', JNum 5), (''name'', JStr (ascii ''Ann'')), (''notes'', JStr (ascii ''met at fair''))]])
        (Inr (0::nat)) (ascii ''2026/1/5'') (JStr (ascii ''5''))
        [(''name'', JStr (ascii ''Ann Lee'')), (''notes'', JStr (ascii ''called''))] (JStr (ascii ''amy''))
       = (Inr Success, [WritePotentialContactRow (JStr (ascii ''5'')) mergedData, InvalidateCache ''contacts''])
     \<and> field mergedData ''notes'' = JStr (ascii ''met at fair'' @ [10] @ ascii ''[amy 2026/1/5] called'')
     \<and> field mergedData ''name'' = JStr (ascii ''Ann Lee'')
     \<and> field mergedData ''rowIndex'' = JNum 5"
proof -
  let ?t = "[(''rowIndex'', JNum 5), (''name'', JStr (ascii ''Ann'')), (''notes'', JStr (ascii ''met at fair''))]"
  have p: "parseInt (JStr (ascii ''5'')) = Some 5"
    by (simp add: parseInt_def ascii_def is_space_def parse_digits_def digit_value_def Let_def)
  have f: "find (\<lambda>c. case parseInt (JStr (ascii ''5'')) of None \<Rightarrow> False
                                            | Some n \<Rightarrow> field c ''rowIndex'' = JNum n) [?t]
           = Some ?t"
    by (simp add: p field_def)
  let ?u = "[(''name'', JStr (ascii ''Ann Lee'')), (''notes'', JStr (ascii ''called''))]"
  note ex = potential_contact_merge [OF f, of "0::nat" "ascii ''2026/1/5''" ?u "JStr (ascii ''amy'')"]
  then obtain mergedData where
    all: "updatePotentialContact (Inr [?t]) (Inr (0::nat)) (ascii ''2026/1/5'') (JStr (ascii ''5'')) ?u
          (JStr (ascii ''amy''))
        = (Inr Success, [WritePotentialContactRow (JStr (ascii ''5'')) mergedData, InvalidateCache ''contacts''])
      \<and> (truthy (field ?u ''notes'') \<longrightarrow>
              field mergedData ''notes''
                = JStr (existing_notes ?t @ (if existing_notes ?t = [] then [] else [10])
                        @ note_marker (JStr (ascii ''amy'')) (ascii ''2026/1/5'')
                        @ to_string (field ?u ''notes'')))
      \<and> (\<forall>k. k \<noteq> ''notes'' \<or> \<not> truthy (field ?u ''notes'') \<longrightarrow>
                field mergedData k = (case map_of (rev ?u) k of Some v \<Rightarrow> v | None \<Rightarrow> field ?t k))"
    ..
  note w = all [THEN conjunct1]
  note n = all [THEN conjunct2, THEN conjunct1]
  note o = all [THEN conjunct2, THEN conjunct2]
  from n have n': "field mergedData ''notes'' = JStr (ascii ''met at fair'' @ [10] @ ascii ''[amy 2026/1/5] called'')"
    by (simp add: existing_notes_def note_marker_def field_def ascii_def)
  from o [THEN spec, of "''name''"] have nm: "field mergedData ''name'' = JStr (ascii ''Ann Lee'')"
    by (simp add: field_def)
  from o [THEN spec, of "''rowIndex''"] have ri: "field mergedData ''rowIndex'' = JNum 5"
    by (simp add: field_def)
  show ?thesis
    by (rule exI [of _ mergedData]) (simp only: w n' nm ri simp_thms)
qed

section \<open>The reads that prefer the federated store\<close>

text \<open>
  C1. In both fetches that prefer the federated store (\<open>_fetchWeeklyEntries\<close> without
  \<open>forceSheet\<close>, and the read of \<open>searchOfficialContacts\<close>), a federated read that raised
  or returned no sequence gives exactly what the sheet reader gives, so no error of the
  federated read reaches the caller, and the whole search is the search over the sheet
  reader's collection; the federated result is taken when it is a sequence, as it is for
  the contacts and mapped to service records for the weekly entries.
\<close>

theorem read_preferred_fallback:
  "(unusable sqlR \<longrightarrow>
      fetchOfficialContacts sqlR sheetR = sheetR
      \<and> searchOfficialContacts toLowerCase sqlR sheetR companiesR cfg query page
          = searchOfficialContacts toLowerCase (Inl InvalidStructure) sheetR companiesR cfg query
              page)
   \<and> (unusable repoR \<longrightarrow> fetchWeeklyEntries False (Some repoR) weeklySheetR = weeklySheetR)
   \<and> fetchOfficialContacts (Inr (Sequence contacts)) sheetR = Inr contacts
   \<and> fetchWeeklyEntries False (Some (Inr (Sequence sqlEntries))) weeklySheetR
       = Inr (map toServiceDTO sqlEntries)
   \<and> (fetchOfficialContacts sqlR sheetR \<noteq> sheetR \<longrightarrow> (\<exists>xs. sqlR = Inr (Sequence xs)))
   \<and> (fetchWeeklyEntries False (Some repoR) weeklySheetR \<noteq> weeklySheetR
        \<longrightarrow> (\<exists>rows. repoR = Inr (Sequence rows)))"
proof -
  have a: "fetchOfficialContacts sqlR sheetR = sheetR" if "unusable sqlR"
    using that by (auto simp: unusable_def fetchOfficialContacts_def)
  have b: "fetchWeeklyEntries False (Some repoR) weeklySheetR = weeklySheetR" if "unusable repoR"
    using that by (auto simp: unusable_def fetchWeeklyEntries_def)
  have c: "\<exists>xs. sqlR = Inr (Sequence xs)" if "fetchOfficialContacts sqlR sheetR \<noteq> sheetR"
    using that by (auto simp: fetchOfficialContacts_def split: sum.splits fetched.splits)
  have d: "\<exists>rows. repoR = Inr (Sequence rows)"
    if "fetchWeeklyEntries False (Some repoR) weeklySheetR \<noteq> weeklySheetR"
    using that by (auto simp: fetchWeeklyEntries_def split: sum.splits fetched.splits)
  have e: "searchOfficialContacts toLowerCase sqlR sheetR companiesR cfg query page
          = searchOfficialContacts toLowerCase (Inl InvalidStructure) sheetR companiesR cfg query
              page"
    if "unusable sqlR"
    using a [OF that]
    by (simp add: searchOfficialContacts_def officialContactResults_def fetchOfficialContacts_def)
  show ?thesis
    using a b c d e by (simp add: fetchOfficialContacts_def fetchWeeklyEntries_def)
qed

theorem read_preferred_fallback_witness:
  "fetchOfficialContacts (Inr (Scalar JNull)) (Inr [[(''contactId'', JStr (ascii ''C1''))]])
     = Inr [[(''contactId'', JStr (ascii ''C1''))]]
   \<and> fetchWeeklyEntries False (Some (Inl (SourceError ''sql down'')))
        (Inr [Object [(''recordId'', JStr (ascii ''R1'')), (''rowIndex'', JNum 2)]])
     = Inr [Object [(''recordId'', JStr (ascii ''R1'')), (''rowIndex'', JNum 2)]]"
proof -
  have u1: "unusable (Inr (Scalar JNull) :: error + obj fetched)"
    by (simp add: unusable_def)
  have u2: "unusable (Inl (SourceError ''sql down'') :: error + jsref fetched)"
    by (simp add: unusable_def)
  from read_preferred_fallback
         [where sqlR = "Inr (Scalar JNull)" and repoR = "Inl (SourceError ''sql down'')"
            and sheetR = "Inr [[(''contactId'', JStr (ascii ''C1''))]]"
            and weeklySheetR = "Inr [Object [(''recordId'', JStr (ascii ''R1'')), (''rowIndex'', JNum 2)]]"]
       u1 u2
  show ?thesis by simp
qed

section \<open>OpportunityService: grouping by stage\<close>

lemma put_own_keys: "fst ` set (put_own k g ps) = insert k (fst ` set ps)"
  by (induction ps) auto

lemma put_own_distinct: "distinct (map fst ps) \<Longrightarrow> distinct (map fst (put_own k g ps))"
proof (induction ps)
  case Nil
  then show ?case by simp
next
  case (Cons p ps)
  then show ?case using put_own_keys [of k g ps] by (auto simp: image_iff)
qed

lemma put_own_existing:
  "distinct (map fst ps) \<Longrightarrow> map_of ps k = Some g \<Longrightarrow>
   put_own k g' ps = map (\<lambda>p. if fst p = k then (k, g') else p) ps"
proof (induction ps)
  case Nil
  then show ?case by simp
next
  case (Cons p ps)
  show ?case
  proof (cases "fst p = k")
    case True
    with Cons.prems have "\<forall>q \<in> set ps. fst q \<noteq> k" by (auto simp: image_iff)
    then have "map (\<lambda>p. if fst p = k then (k, g') else p) ps = ps"
      by (induction ps) auto
    with True show ?thesis by simp
  next
    case False
    with Cons show ?thesis by (cases p) auto
  qed
qed

lemma put_own_subset: "set (put_own k g ps) \<subseteq> insert (k, g) (set ps)"
  by (induction ps) auto

lemma add_members_Nil: "add_members [] p = p"
  by (simp add: add_members_def)

lemma add_members_Cons:
  "add_members opps (add_members [opp] p) = add_members (opp # opps) p"
  by (simp add: add_members_def)

lemma fst_add_members: "fst (add_members opps p) = fst p"
  by (simp add: add_members_def)

lemma keys_add_members: "map fst (map (add_members opps) ps) = map fst ps"
  by (induction ps) (simp_all add: fst_add_members)

lemma add_members_skip:
  "\<not> belongs_to (fst p) opp \<Longrightarrow> add_members [opp] p = p"
  by (simp add: add_members_def)

lemma classify_step:
  assumes "proto sg = None" and "distinct (map fst (own sg))"
    and "field opp ''currentStatus'' = JStr in_progress \<longrightarrow>
           to_string (field opp ''currentStage'') \<in> fst ` set (own sg)
           \<or> to_string (field opp ''currentStage'') \<notin> set object_prototype_keys"
  shows "classify opp sg = Inr (sg \<lparr> own := map (add_members [opp]) (own sg) \<rparr>)"
proof (cases "field opp ''currentStatus'' = JStr in_progress")
  case False
  then have "map (add_members [opp]) (own sg) = own sg"
    by (simp add: add_members_skip belongs_to_def map_idI)
  with False show ?thesis by (simp add: classify_def)
next
  case True
  let ?k = "to_string (field opp ''currentStage'')"
  show ?thesis
  proof (cases "map_of (own sg) ?k")
    case None
    then have nk: "?k \<notin> fst ` set (own sg)" by (simp add: map_of_eq_None_iff)
    with assms True have "?k \<notin> set object_prototype_keys" by simp
    then have l: "lookup_group sg ?k = Falsy"
      using None assms(1) by (simp add: lookup_group_def)
    from nk have "\<forall>p \<in> set (own sg). \<not> belongs_to (fst p) opp"
      by (auto simp: belongs_to_def image_iff)
    then have "map (add_members [opp]) (own sg) = own sg"
      by (simp add: add_members_skip map_idI)
    with l True show ?thesis by (simp add: classify_def Let_def)
  next
    case (Some g)
    then have l: "lookup_group sg ?k = OwnGroup g" by (simp add: lookup_group_def)
    have "map (\<lambda>p. if fst p = ?k then (?k, push_opportunity opp g) else p) (own sg)
            = map (add_members [opp]) (own sg)"
    proof (rule map_cong [OF refl])
      fix p assume p: "p \<in> set (own sg)"
      show "(if fst p = ?k then (?k, push_opportunity opp g) else p) = add_members [opp] p"
      proof (cases "fst p = ?k")
        case k: True
        from p assms(2) have "map_of (own sg) (fst p) = Some (snd p)" by simp
        with k Some have "snd p = g" by simp
        with k True show ?thesis
          by (simp add: add_members_def push_opportunity_def belongs_to_def)
      next
        case False
        then show ?thesis by (simp add: add_members_skip belongs_to_def)
      qed
    qed
    with l True Some assms(2) show ?thesis
      by (simp add: classify_def Let_def put_own_existing)
  qed
qed

lemma classify_all_members:
  assumes "proto sg = None" and "distinct (map fst (own sg))"
    and "\<forall>opp \<in> set opps. field opp ''currentStatus'' = JStr in_progress \<longrightarrow>
           to_string (field opp ''currentStage'') \<in> fst ` set (own sg)
           \<or> to_string (field opp ''currentStage'') \<notin> set object_prototype_keys"
  shows "classify_all opps sg = Inr (sg \<lparr> own := map (add_members opps) (own sg) \<rparr>)"
  using assms
proof (induction opps arbitrary: sg)
  case Nil
  then show ?case by (simp add: add_members_Nil)
next
  case (Cons opp opps)
  let ?sg1 = "sg \<lparr> own := map (add_members [opp]) (own sg) \<rparr>"
  have s: "classify opp sg = Inr ?sg1"
    using Cons.prems by (intro classify_step) auto
  have k: "map fst (own ?sg1) = map fst (own sg)"
    using keys_add_members [of "[opp]" "own sg"] by simp
  have "classify_all opps ?sg1 = Inr (?sg1 \<lparr> own := map (add_members opps) (own ?sg1) \<rparr>)"
  proof (rule Cons.IH)
    show "proto ?sg1 = None" using Cons.prems by simp
    show "distinct (map fst (own ?sg1))" using Cons.prems(2) by (simp only: k)
    have "fst ` set (own ?sg1) = fst ` set (own sg)"
      using k by (metis list.set_map)
    then show "\<forall>opp \<in> set opps. field opp ''currentStatus'' = JStr in_progress \<longrightarrow>
           to_string (field opp ''currentStage'') \<in> fst ` set (own ?sg1)
           \<or> to_string (field opp ''currentStage'') \<notin> set object_prototype_keys"
      using Cons.prems(3) by simp
  qed
  with s show ?case by (simp add: add_members_Cons comp_def)
qed

lemma init_stage_plain:
  "stage_key stage \<noteq> ascii ''__proto__'' \<Longrightarrow>
   init_stage stage sg = sg \<lparr> own := put_own (stage_key stage) (fresh_group stage) (own sg) \<rparr>"
  by (simp add: init_stage_def stage_key_def fresh_group_def Let_def)

lemma init_fold:
  assumes "\<forall>stage \<in> set st. stage_key stage \<noteq> ascii ''__proto__''"
    and "set st \<subseteq> S"
    and "proto sg = None" and "distinct (map fst (own sg))"
    and "\<forall>p \<in> set (own sg). \<exists>stage \<in> S. p = (stage_key stage, fresh_group stage)"
  shows "proto (fold init_stage st sg) = None
       \<and> distinct (map fst (own (fold init_stage st sg)))
       \<and> fst ` set (own (fold init_stage st sg)) = fst ` set (own sg) \<union> stage_key ` set st
       \<and> (\<forall>p \<in> set (own (fold init_stage st sg)). \<exists>stage \<in> S. p = (stage_key stage, fresh_group stage))"
  using assms
proof (induction st arbitrary: sg)
  case Nil
  then show ?case by simp
next
  case (Cons stage st)
  let ?sg1 = "sg \<lparr> own := put_own (stage_key stage) (fresh_group stage) (own sg) \<rparr>"
  have i: "init_stage stage sg = ?sg1"
    using Cons.prems(1) by (simp add: init_stage_plain)
  have m: "\<forall>p \<in> set (own ?sg1). \<exists>stage \<in> S. p = (stage_key stage, fresh_group stage)"
  proof
    fix p assume "p \<in> set (own ?sg1)"
    then have "p = (stage_key stage, fresh_group stage) \<or> p \<in> set (own sg)"
      using put_own_subset [of "stage_key stage" "fresh_group stage" "own sg"] by auto
    then show "\<exists>stage \<in> S. p = (stage_key stage, fresh_group stage)"
      using Cons.prems(2,5) by auto
  qed
  have "proto (fold init_stage st ?sg1) = None
       \<and> distinct (map fst (own (fold init_stage st ?sg1)))
       \<and> fst ` set (own (fold init_stage st ?sg1)) = fst ` set (own ?sg1) \<union> stage_key ` set st
       \<and> (\<forall>p \<in> set (own (fold init_stage st ?sg1)). \<exists>stage \<in> S. p = (stage_key stage, fresh_group stage))"
  proof (rule Cons.IH)
    show "\<forall>stage \<in> set st. stage_key stage \<noteq> ascii ''__proto__''" using Cons.prems(1) by simp
    show "set st \<subseteq> S" using Cons.prems(2) by simp
    show "proto ?sg1 = None" using Cons.prems(3) by simp
    show "distinct (map fst (own ?sg1))" using Cons.prems(4) by (simp add: put_own_distinct)
    show "\<forall>p \<in> set (own ?sg1). \<exists>stage \<in> S. p = (stage_key stage, fresh_group stage)" by (rule m)
  qed
  moreover have "fst ` set (own ?sg1) = insert (stage_key stage) (fst ` set (own sg))"
    by (simp add: put_own_keys)
  ultimately show ?case using i by auto
qed

text \<open>
  Away from the property names of \<open>Object.prototype\<close> the grouping is complete: when no
  stage key is \<open>__proto__\<close> and the stage of every in-progress opportunity is a configured
  key or no property name of \<open>Object.prototype\<close>, \<open>getOpportunitiesByStage\<close> returns one
  group for every stage key of the list and no other group; every group has the name of a
  configured stage with that key (its note, or else its value), as members the in-progress
  opportunities of that stage in their order, and as count the number of its members. A
  stage without a matching opportunity is present with no members and count 0.
\<close>

lemma stage_groups_complete:
  assumes "\<forall>stage \<in> set stages. stage_key stage \<noteq> ascii ''__proto__''"
    and "\<forall>opp \<in> set opps. field opp ''currentStatus'' = JStr in_progress \<longrightarrow>
           to_string (field opp ''currentStage'') \<in> stage_key ` set stages
           \<or> to_string (field opp ''currentStage'') \<notin> set object_prototype_keys"
  shows "distinct (map fst (own (getOpportunitiesByStage (Inr (Sequence opps)) (Inr (Some (Some stages))))))
       \<and> fst ` set (own (getOpportunitiesByStage (Inr (Sequence opps)) (Inr (Some (Some stages)))))
           = stage_key ` set stages
       \<and> (\<forall>p \<in> set (own (getOpportunitiesByStage (Inr (Sequence opps)) (Inr (Some (Some stages))))).
             (\<exists>stage \<in> set stages. stage_key stage = fst p
                 \<and> name (snd p) = js_or (field stage ''note'') (field stage ''value''))
             \<and> opportunities (snd p) = filter (belongs_to (fst p)) opps
             \<and> count (snd p) = length (opportunities (snd p)))"
proof -
  let ?init = "fold init_stage stages empty_groups"
  have i: "proto ?init = None
       \<and> distinct (map fst (own ?init))
       \<and> fst ` set (own ?init) = fst ` set (own empty_groups) \<union> stage_key ` set stages
       \<and> (\<forall>p \<in> set (own ?init). \<exists>stage \<in> set stages. p = (stage_key stage, fresh_group stage))"
    using assms(1) by (intro init_fold) (simp_all add: empty_groups_def)
  then have keys: "fst ` set (own ?init) = stage_key ` set stages"
    by (simp add: empty_groups_def)
  have c: "classify_all opps ?init = Inr (?init \<lparr> own := map (add_members opps) (own ?init) \<rparr>)"
    using i assms(2) keys by (intro classify_all_members) simp_all
  then have r: "own (getOpportunitiesByStage (Inr (Sequence opps)) (Inr (Some (Some stages))))
                  = map (add_members opps) (own ?init)"
    by (simp add: getOpportunitiesByStage_def Let_def)
  have d: "distinct (map fst (map (add_members opps) (own ?init)))"
    using i by (simp only: keys_add_members)
  have k: "fst ` set (map (add_members opps) (own ?init)) = stage_key ` set stages"
    using keys keys_add_members [of opps "own ?init"] by (metis list.set_map)
  have m: "\<forall>p \<in> set (map (add_members opps) (own ?init)).
             (\<exists>stage \<in> set stages. stage_key stage = fst p
                 \<and> name (snd p) = js_or (field stage ''note'') (field stage ''value''))
             \<and> opportunities (snd p) = filter (belongs_to (fst p)) opps
             \<and> count (snd p) = length (opportunities (snd p))"
  proof
    fix p assume "p \<in> set (map (add_members opps) (own ?init))"
    then obtain q where q: "q \<in> set (own ?init)" and p: "p = add_members opps q" by auto
    from q i obtain stage where s: "stage \<in> set stages" and qs: "q = (stage_key stage, fresh_group stage)"
      by blast
    from p qs have "fst p = stage_key stage"
      and "name (snd p) = js_or (field stage ''note'') (field stage ''value'')"
      and "opportunities (snd p) = filter (belongs_to (fst p)) opps"
      and "count (snd p) = length (opportunities (snd p))"
      by (simp_all add: add_members_def fresh_group_def)
    with s show "(\<exists>stage \<in> set stages. stage_key stage = fst p
                 \<and> name (snd p) = js_or (field stage ''note'') (field stage ''value''))
             \<and> opportunities (snd p) = filter (belongs_to (fst p)) opps
             \<and> count (snd p) = length (opportunities (snd p))"
      by auto
  qed
  from d k m show ?thesis by (simp only: r) 
qed

lemma stage_groups_complete_example:
  "\<exists>g. (ascii ''Closed'', g)
          \<in> set (own (getOpportunitiesByStage
                  (Inr (Sequence [[(''currentStatus'', JStr in_progress), (''currentStage'', JStr (ascii ''Lead''))],
                                  [(''currentStatus'', JStr (ascii ''won'')), (''currentStage'', JStr (ascii ''Closed''))]]))
                  (Inr (Some (Some [[(''value'', JStr (ascii ''Lead'')), (''note'', JStr (ascii ''New lead''))],
                                    [(''value'', JStr (ascii ''Closed''))]])))))
       \<and> opportunities g = [] \<and> count g = 0"
proof -
  let ?opps = "[[(''currentStatus'', JStr in_progress), (''currentStage'', JStr (ascii ''Lead''))],
                [(''currentStatus'', JStr (ascii ''won'')), (''currentStage'', JStr (ascii ''Closed''))]]"
  let ?stages = "[[(''value'', JStr (ascii ''Lead'')), (''note'', JStr (ascii ''New lead''))],
                  [(''value'', JStr (ascii ''Closed''))]]"
  let ?r = "getOpportunitiesByStage (Inr (Sequence ?opps)) (Inr (Some (Some ?stages)))"
  have h1: "\<forall>stage \<in> set ?stages. stage_key stage \<noteq> ascii ''__proto__''"
    by (simp add: stage_key_def field_def ascii_def)
  have h2: "\<forall>opp \<in> set ?opps. field opp ''currentStatus'' = JStr in_progress \<longrightarrow>
           to_string (field opp ''currentStage'') \<in> stage_key ` set ?stages
           \<or> to_string (field opp ''currentStage'') \<notin> set object_prototype_keys"
    by (simp add: stage_key_def field_def ascii_def in_progress_def)
  note t = stage_groups_complete [OF h1 h2]
  have "ascii ''Closed'' \<in> stage_key ` set ?stages"
    by (simp add: stage_key_def field_def)
  with t have "ascii ''Closed'' \<in> fst ` set (own ?r)" by simp
  then obtain g where g: "(ascii ''Closed'', g) \<in> set (own ?r)" by auto
  with t have "opportunities g = filter (belongs_to (ascii ''Closed'')) ?opps \<and> count g = length (opportunities g)"
    by force
  then have "opportunities g = [] \<and> count g = 0"
    by (simp add: belongs_to_def field_def ascii_def in_progress_def)
  with g show ?thesis by blast
qed

text \<open>
  C7. \<open>stageGroups\<close> is created as \<open>{}\<close>, so the guard \<open>if (stageGroups[stageKey])\<close> is
  also passed by a stage that names a property of \<open>Object.prototype\<close>. For the configured
  stages Lead and Closed and one opportunity in progress whose stage is \<open>constructor\<close>,
  \<open>push\<close> is called on \<open>undefined\<close>, the \<open>catch\<close> returns \<open>{}\<close>, and neither Lead nor
  Closed is emitted, although both are emitted with count 0 and no members when that
  opportunity is not in the array. A configured stage whose value is \<open>__proto__\<close> is
  not emitted as a group either.
\<close>

theorem stage_groups_lost_on_prototype_key:
  "getOpportunitiesByStage
     (Inr (Sequence [[(''opportunityId'', JStr (ascii ''OPP1'')), (''currentStatus'', JStr in_progress),
                      (''currentStage'', JStr (ascii ''constructor''))]]))
     (Inr (Some (Some [[(''value'', JStr (ascii ''Lead'')), (''note'', JStr (ascii ''New lead''))],
                       [(''value'', JStr (ascii ''Closed''))]])))
   = \<lparr> own = [], proto = None \<rparr>
   \<and> getOpportunitiesByStage (Inr (Sequence []))
       (Inr (Some (Some [[(''value'', JStr (ascii ''Lead'')), (''note'', JStr (ascii ''New lead''))],
                         [(''value'', JStr (ascii ''Closed''))]])))
     = \<lparr> own = [(ascii ''Lead'', \<lparr> name = JStr (ascii ''New lead''), opportunities = [], count = 0 \<rparr>),
                (ascii ''Closed'', \<lparr> name = JStr (ascii ''Closed''), opportunities = [], count = 0 \<rparr>)],
         proto = None \<rparr>
   \<and> own (getOpportunitiesByStage (Inr (Sequence []))
            (Inr (Some (Some [[(''value'', JStr (ascii ''__proto__''))]])))) = []"
  by (simp add: getOpportunitiesByStage_def init_stage_def classify_def lookup_group_def
        object_prototype_keys_def empty_groups_def field_def js_or_def in_progress_def Let_def
        ascii_def)

section \<open>Descending date sorts\<close>

lemma sorted_insert_by:
  assumes total: "\<And>a b. keeps_order (cmp a b) \<or> keeps_order (cmp b a)"
    and trans: "\<And>a b c. keeps_order (cmp a b) \<Longrightarrow> keeps_order (cmp b c) \<Longrightarrow> keeps_order (cmp a c)"
  shows "sorted_wrt (\<lambda>a b. keeps_order (cmp a b)) ys \<Longrightarrow>
         sorted_wrt (\<lambda>a b. keeps_order (cmp a b)) (insert_by cmp x ys)"
proof (induction ys)
  case Nil
  then show ?case by simp
next
  case (Cons y ys)
  show ?case
  proof (cases "keeps_order (cmp x y)")
    case True
    with Cons.prems trans show ?thesis by auto
  next
    case False
    with total have "keeps_order (cmp y x)" by blast
    with False Cons show ?thesis by (auto simp: set_insert_by)
  qed
qed

lemma sorted_array_sort:
  assumes "\<And>a b. keeps_order (cmp a b) \<or> keeps_order (cmp b a)"
    and "\<And>a b c. keeps_order (cmp a b) \<Longrightarrow> keeps_order (cmp b c) \<Longrightarrow> keeps_order (cmp a c)"
  shows "sorted_wrt (\<lambda>a b. keeps_order (cmp a b)) (array_sort cmp xs)"
proof (induction xs)
  case Nil
  then show ?case by (simp add: array_sort_def)
next
  case (Cons x xs)
  then show ?case
    using sorted_insert_by [of cmp "array_sort cmp xs" x, OF assms]
    by (simp add: array_sort_def)
qed

lemma keeps_order_cmpDateDesc:
  "keeps_order (cmpDateDesc parseDate ta tb) \<longleftrightarrow>
     parseDate tb = None \<or> (\<exists>a b. parseDate ta = Some a \<and> parseDate tb = Some b \<and> b \<le> a)"
  by (auto simp: cmpDateDesc_def split: option.splits)

lemma guarded_sort_sorted:
  "sorted_wrt (\<lambda>a b. keeps_order (cmpDateDesc parseDate (field a k) (field b k)))
     (array_sort (\<lambda>a b. cmpDateDesc parseDate (field a k) (field b k)) xs)"
proof (rule sorted_array_sort)
  fix a b :: obj
  show "keeps_order (cmpDateDesc parseDate (field a k) (field b k))
        \<or> keeps_order (cmpDateDesc parseDate (field b k) (field a k))"
    by (cases "parseDate (field a k)"; cases "parseDate (field b k)")
       (auto simp: keeps_order_cmpDateDesc)
next
  fix a b c :: obj
  assume "keeps_order (cmpDateDesc parseDate (field a k) (field b k))"
    and "keeps_order (cmpDateDesc parseDate (field b k) (field c k))"
  then show "keeps_order (cmpDateDesc parseDate (field a k) (field c k))"
    by (auto simp: keeps_order_cmpDateDesc)
qed

lemma sorted_invalid_last:
  assumes "sorted_wrt (\<lambda>a b. keeps_order (cmpDateDesc parseDate (field a k) (field b k))) xs"
  shows "invalid_last parseDate k xs"
  unfolding invalid_last_def
proof (intro allI impI)
  fix i j
  assume h: "i < j \<and> j < length xs \<and> parseDate (field (xs ! i) k) = None"
  with assms have "keeps_order (cmpDateDesc parseDate (field (xs ! i) k) (field (xs ! j) k))"
    by (simp add: sorted_wrt_iff_nth_less)
  with h show "parseDate (field (xs ! j) k) = None"
    by (auto simp: keeps_order_cmpDateDesc)
qed

lemma invalid_last_take: "invalid_last parseDate k xs \<Longrightarrow> invalid_last parseDate k (take n xs)"
  by (auto simp: invalid_last_def)

text \<open>
  The two guarded sorts (potential contacts by \<open>createdTime\<close>, interactions by
  \<open>interactionTime\<close>), with the order of \<open>array_sort\<close>, put every record with an invalid
  date behind every record with a valid one: with the guard, the comparator never lets a
  record with an invalid date stay in front of a record with a valid one.
\<close>

lemma guarded_sorts_invalid_last:
  "(getPotentialContacts array_sort parseDate contactsR limit = Inr cs \<longrightarrow> invalid_last parseDate ''createdTime'' cs)
   \<and> (interactionResults array_sort toLowerCase parseDate iR oR cR query = Inr rs \<longrightarrow> invalid_last parseDate ''interactionTime'' rs)"
proof (intro conjI impI)
  assume "getPotentialContacts array_sort parseDate contactsR limit = Inr cs"
  then obtain kept where
    "cs = (let sorted = array_sort (\<lambda>a b. cmpDateDesc parseDate (field a ''createdTime'') (field b ''createdTime'')) kept
           in if limit > 0 then js_slice sorted 0 limit else sorted)"
    by (auto simp: getPotentialContacts_def Let_def split: sum.splits)
  moreover have "js_slice xs 0 limit = take (nat limit) xs" if "limit > 0" for xs :: "obj list"
    using that js_slice_take_drop [of 0 xs "nat limit"] by simp
  ultimately show "invalid_last parseDate ''createdTime'' cs"
    using sorted_invalid_last [OF guarded_sort_sorted, of parseDate "''createdTime''" kept]
    by (auto simp: Let_def invalid_last_take)
next
  assume "interactionResults array_sort toLowerCase parseDate iR oR cR query = Inr rs"
  then obtain filtered where
    "rs = array_sort (\<lambda>a b. cmpDateDesc parseDate (field a ''interactionTime'') (field b ''interactionTime'')) filtered"
    by (auto simp: interactionResults_def Let_def split: sum.splits)
  then show "invalid_last parseDate ''interactionTime'' rs"
    using sorted_invalid_last [OF guarded_sort_sorted, of parseDate "''interactionTime''" filtered]
    by simp
qed

text \<open>
  The scenario of the specification on a guarded sort: the record whose time is no date
  comes behind the record with a date.
\<close>

lemma guarded_sort_example:
  "getPotentialContacts array_sort parse_known
     (Inr [[(''name'', JStr (ascii ''one'')), (''createdTime'', JStr (ascii ''not-a-date''))],
           [(''name'', JStr (ascii ''two'')), (''createdTime'', JStr (ascii ''2026-01-21''))]]) 2000
   = Inr [[(''name'', JStr (ascii ''two'')), (''createdTime'', JStr (ascii ''2026-01-21''))],
          [(''name'', JStr (ascii ''one'')), (''createdTime'', JStr (ascii ''not-a-date''))]]"
  by (simp add: getPotentialContacts_def js_or_def field_def array_sort_def cmpDateDesc_def
        parse_known_def ascii_def js_slice_def Let_def)

text \<open>
  C6. The sort of the weekly entries compares \<open>new Date(b[date]) - new Date(a[date])\<close>
  without the guard of the two other sorts. For the sheet entries A (an \<open>entryDate\<close> in
  the week, no legacy date key) and B (both keys, a valid date), both of the week
  2026-W04, the result keeps A, whose date does not parse, in front of B: both
  comparisons of A and B give \<open>NaN\<close>, which counts as equal, and the sort is stable.
\<close>

theorem weekly_sort_keeps_invalid_first:
  "entriesForWeekSorted array_sort parse_known None
     (Inr [Object [(''recordId'', JStr (ascii ''A'')), (''entryDate'', JStr (ascii ''2026-01-20''))],
           Object [(''recordId'', JStr (ascii ''B'')), (''entryDate'', JStr (ascii ''2026-01-21'')),
                   (key_date, JStr (ascii ''2026-01-21''))]])
     (Inr (Some week3))
   = [[(''recordId'', JStr (ascii ''A'')), (''entryDate'', JStr (ascii ''2026-01-20''))],
      [(''recordId'', JStr (ascii ''B'')), (''entryDate'', JStr (ascii ''2026-01-21'')),
       (key_date, JStr (ascii ''2026-01-21''))]]
   \<and> parse_known (field [(''recordId'', JStr (ascii ''A'')), (''entryDate'', JStr (ascii ''2026-01-20''))] key_date) = None
   \<and> parse_known (field [(''recordId'', JStr (ascii ''B'')), (''entryDate'', JStr (ascii ''2026-01-21'')),
                          (key_date, JStr (ascii ''2026-01-21''))] key_date) = Some 1768953600000"
  by (simp add: entriesForWeekSorted_def fetchWeeklyEntries_def week3_def inWeek_def js_or_def
        field_def key_date_def ascii_def objects_of_def List.map_filter_simps array_sort_def
        cmpDateMinus_def parse_known_def)

section \<open>OpportunityService: the details of an opportunity\<close>

text \<open>
  C4. \<open>getOpportunityDetails\<close> assigns the resolved job title to the record that
  \<open>find\<close> returned, which is the record of the cached array: for an opportunity whose
  main contact is a potential contact of the same company with the position CEO, the
  cached array holds the record with the new field \<open>mainContactJobTitle\<close> after the call
  and differs from the array before the call.
\<close>

theorem opportunity_details_pollutes_cache:
  "snd (getOpportunityDetails array_sort basic_latin_lower (\<lambda>v. None)
          (Inr [[(''opportunityId'', JStr (ascii ''OPP1'')), (''customerCompany'', JStr (ascii ''Acme'')),
                 (''mainContact'', JStr (ascii ''Ann''))]])
          (Inr []) (Inr []) (Inr (Some [])) (Inr (Some []))
          (Inr [[(''name'', JStr (ascii ''Ann'')), (''company'', JStr (ascii ''ACME'')),
                 (''position'', JStr (ascii ''CEO''))]])
          (JStr (ascii ''OPP1'')))
   = [[(''opportunityId'', JStr (ascii ''OPP1'')), (''customerCompany'', JStr (ascii ''Acme'')),
       (''mainContact'', JStr (ascii ''Ann'')), (''mainContactJobTitle'', JStr (ascii ''CEO''))]]
   \<and> snd (getOpportunityDetails array_sort basic_latin_lower (\<lambda>v. None)
          (Inr [[(''opportunityId'', JStr (ascii ''OPP1'')), (''customerCompany'', JStr (ascii ''Acme'')),
                 (''mainContact'', JStr (ascii ''Ann''))]])
          (Inr []) (Inr []) (Inr (Some [])) (Inr (Some []))
          (Inr [[(''name'', JStr (ascii ''Ann'')), (''company'', JStr (ascii ''ACME'')),
                 (''position'', JStr (ascii ''CEO''))]])
          (JStr (ascii ''OPP1'')))
   \<noteq> [[(''opportunityId'', JStr (ascii ''OPP1'')), (''customerCompany'', JStr (ascii ''Acme'')),
       (''mainContact'', JStr (ascii ''Ann''))]]"
  by (simp add: getOpportunityDetails_def first_rejection_def settled_def fulfilled_def fulfilled_opt_def
        List.map_filter_simps opportunityDetailsOf_def Let_def linkedContactsOf_def sameCompany_def
        resolveJobTitle_def js_or_def has_position_def array_sort_def normalize_eval)

section \<open>Read after write\<close>


text \<open>
  On no input does \<open>updateWeeklyBusinessEntry\<close> invalidate a cache, whereas every
  successful \<open>updateContact\<close> ends with the invalidation of the contact list.
\<close>

lemma weekly_update_never_invalidates:
  "InvalidateCache key \<notin> set (snd (updateWeeklyBusinessEntry repoR sheetR writerR recordId entryData))"
  by (simp add: updateWeeklyBusinessEntry_def Let_def split: sum.splits)

lemma contact_update_invalidates:
  "fst (updateContact contactsR writerR contactId updateData user) = Inr Success \<Longrightarrow>
   \<exists>rowIndex. snd (updateContact contactsR writerR contactId updateData user)
                = [UpdateContactRow rowIndex updateData user, InvalidateCache ''contactList'']"
  by (auto simp: updateContact_def Let_def split: sum.splits option.splits if_splits)

lemma sheet_reader_get: "sheet (snd (reader_get key w)) = sheet w"
  by (simp add: reader_get_def split: option.splits)

text \<open>
  The sibling update does what the claim says. When the cache of the contact list is
  empty or holds the stored rows and \<open>updateContact\<close> for the contact X completes
  successfully, the cache of the contact list has been invalidated, and the next read of
  the sheet reader, which is what a fetch that prefers the federated store returns when
  the federated read raised or gave no sequence, holds X's row with the caller's fields
  written over it.
\<close>

lemma update_contact_read_after_write:
  assumes "run_updateContact w contactId updateData user = (Inr Success, w')"
    and "cache w ''contactList'' = None \<or> cache w ''contactList'' = Some (sheet w ''contactList'')"
  shows "cache w' ''contactList'' = None
       \<and> (\<exists>target \<in> set (sheet w ''contactList'').
             field target ''contactId'' = contactId
             \<and> spread target updateData \<in> set (fst (reader_get ''contactList'' w'))
             \<and> (\<forall>k v. map_of (rev updateData) k = Some v \<longrightarrow> field (spread target updateData) k = v))
       \<and> (unusable sqlR \<longrightarrow>
            readPreferredContacts sqlR w' = Inr (fst (reader_get ''contactList'' w')))"
proof -
  obtain allContacts w1 where g: "reader_get ''contactList'' w = (allContacts, w1)"
    by (cases "reader_get ''contactList'' w")
  have s1: "sheet w1 = sheet w" using sheet_reader_get [of "''contactList''" w] g by simp
  have a: "allContacts = sheet w ''contactList''"
    using assms(2) g by (auto simp: reader_get_def)
  from assms(1) g obtain target where
    f: "find (\<lambda>c. field c ''contactId'' = contactId) allContacts = Some target"
    and w': "w' = invalidateCache ''contactList''
                   (updateAt ''contactList'' (field target ''rowIndex'') updateData w1)"
    by (auto simp: run_updateContact_def updateContact_def Let_def
             split: option.splits if_splits)
  from f a have m: "target \<in> set (sheet w ''contactList'') \<and> field target ''contactId'' = contactId"
    by (auto simp: find_Some_iff)
  have c: "cache w' ''contactList'' = None"
    by (simp add: w' invalidateCache_def)
  have r: "fst (reader_get ''contactList'' w')
             = map (\<lambda>row. if field row ''rowIndex'' = field target ''rowIndex''
                           then spread row updateData else row) (sheet w ''contactList'')"
    using c by (simp add: reader_get_def w' invalidateCache_def updateAt_def s1)
  have i: "spread target updateData \<in> set (fst (reader_get ''contactList'' w'))"
    using m by (simp only: r) (force simp: image_iff)
  have u: "unusable sqlR \<longrightarrow>
             readPreferredContacts sqlR w' = Inr (fst (reader_get ''contactList'' w'))"
    by (auto simp: readPreferredContacts_def unusable_def fetchOfficialContacts_def)
  from c m i u show ?thesis by (auto simp: field_spread)
qed

section \<open>The company-name normalizer\<close>

subsection \<open>Trim\<close>

lemma dropWhile_all: "\<forall>u \<in> set zs. P u \<Longrightarrow> dropWhile P zs = []"
  by (induction zs) auto

lemma dropWhile_blank: "blank ws \<Longrightarrow> dropWhile is_space (ws @ xs) = dropWhile is_space xs"
  by (simp add: blank_def dropWhile_append2)

lemma trim_blank_prefix: "blank ws \<Longrightarrow> trim (ws @ xs) = trim xs"
  by (simp add: trim_def dropWhile_blank)

lemma trim_blank_suffix:
  assumes "blank ws"
  shows "trim (xs @ ws) = trim xs"
proof (cases "\<forall>u \<in> set xs. is_space u")
  case True
  then have "dropWhile is_space xs = []" by (rule dropWhile_all)
  moreover have "\<forall>u \<in> set (xs @ ws). is_space u"
    using True assms by (simp add: blank_def ball_Un)
  then have "dropWhile is_space (xs @ ws) = []" by (rule dropWhile_all)
  ultimately show ?thesis by (simp only: trim_def)
next
  case False
  then obtain x where "x \<in> set xs" and "\<not> is_space x" by blast
  then have "dropWhile is_space (xs @ ws) = dropWhile is_space xs @ ws"
    by (rule dropWhile_append1)
  moreover have "blank (rev ws)" using assms by (simp add: blank_def)
  ultimately show ?thesis by (simp add: trim_def dropWhile_blank)
qed

lemma blank_takeWhile: "blank (takeWhile is_space s)"
  unfolding blank_def by (induction s) auto

lemma trim_decompose: "\<exists>wl wr. blank wl \<and> blank wr \<and> s = wl @ trim s @ wr"
proof -
  let ?l = "takeWhile is_space s"
  let ?m = "dropWhile is_space s"
  let ?r = "rev (takeWhile is_space (rev ?m))"
  have 1: "s = ?l @ ?m" by simp
  have "rev (rev ?m) = rev (takeWhile is_space (rev ?m) @ dropWhile is_space (rev ?m))"
    by (simp only: takeWhile_dropWhile_id)
  then have "?m = rev (dropWhile is_space (rev ?m)) @ ?r"
    by (simp only: rev_rev_ident rev_append)
  then have 2: "?m = trim s @ ?r" by (simp only: trim_def)
  have 3: "blank ?l" by (rule blank_takeWhile)
  have "blank (takeWhile is_space (rev ?m))" by (rule blank_takeWhile)
  then have 4: "blank ?r" by (simp add: blank_def)
  from 2 have "?l @ ?m = ?l @ trim s @ ?r" by (rule arg_cong)
  with 1 have "s = ?l @ trim s @ ?r" by (rule trans)
  with 3 4 show ?thesis by (intro exI conjI)
qed

subsection \<open>Removing the suffix tokens\<close>

lemma token_start_unit: "token_start u \<Longrightarrow> token_unit u"
  by (auto simp: token_start_def token_unit_def)

lemma tokens_units: "t \<in> set suffix_tokens \<Longrightarrow> u \<in> set t \<Longrightarrow> token_unit u"
  by (auto simp: suffix_tokens_def token_unit_def)

lemma space_not_token: "is_space u \<Longrightarrow> \<not> token_unit u"
  by (auto simp: is_space_def token_unit_def)

lemma space_not_paren: "is_space u \<Longrightarrow> u \<noteq> 0x28 \<and> u \<noteq> 0x29"
  by (auto simp: is_space_def)

lemma no_match_at: "\<not> token_start c \<Longrightarrow> match_alternative suffix_tokens (c # s) = None"
  by (simp add: suffix_tokens_def token_start_def)

lemma remove_tokens_keep: "\<not> token_start c \<Longrightarrow> remove_tokens 0 (c # s) = c # remove_tokens 0 s"
  by (simp add: no_match_at)

lemma remove_tokens_prefix:
  "\<forall>u \<in> set xs. \<not> token_start u \<Longrightarrow> remove_tokens 0 (xs @ ys) = xs @ remove_tokens 0 ys"
  by (induction xs) (simp_all add: remove_tokens_keep del: remove_tokens.simps(3))

lemma remove_tokens_skip: "remove_tokens (length xs) (xs @ ys) = remove_tokens 0 ys"
  by (induction xs) simp_all

lemma match_token:
  "t \<in> set suffix_tokens \<Longrightarrow> match_alternative suffix_tokens (t @ s) = Some (length t)"
  by (auto simp: suffix_tokens_def)

lemma remove_tokens_token:
  assumes "t \<in> set suffix_tokens"
  shows "remove_tokens 0 (t @ s) = remove_tokens 0 s"
proof -
  from assms obtain c r where t: "t = c # r" by (auto simp: suffix_tokens_def)
  have "remove_tokens 0 (t @ s) = remove_tokens (length t - 1) (r @ s)"
    using match_token [OF assms, of s] by (simp add: t)
  also have "\<dots> = remove_tokens (length r) (r @ s)" by (simp add: t)
  also have "\<dots> = remove_tokens 0 s" by (rule remove_tokens_skip)
  finally show ?thesis .
qed

lemma remove_tokens_concat:
  "set toks \<subseteq> set suffix_tokens \<Longrightarrow> remove_tokens 0 (concat toks @ s) = remove_tokens 0 s"
  by (induction toks) (simp_all add: remove_tokens_token del: remove_tokens.simps(3))

lemma startsWith_length: "startsWith s t \<Longrightarrow> length t \<le> length s"
  by (induction s t rule: startsWith.induct) simp_all

lemma startsWith_take: "startsWith s t \<Longrightarrow> take (length t) s = t"
  by (induction s t rule: startsWith.induct) simp_all

lemma match_alternative_length: "match_alternative ts s = Some n \<Longrightarrow> n \<le> length s"
  by (induction ts) (auto simp: startsWith_length split: if_splits)

lemma match_alternative_token:
  "match_alternative ts s = Some n \<Longrightarrow> \<exists>t \<in> set ts. startsWith s t \<and> length t = n"
  by (induction ts) (auto split: if_splits)

lemma set_remove_tokens: "set (remove_tokens k s) \<subseteq> set s"
  by (induction k s rule: remove_tokens.induct) (auto split: option.splits)

text \<open>
  A match that begins in \<open>s\<close> and needs code units of the text \<open>u\<close> behind \<open>s\<close> has \<open>s\<close> as
  a proper prefix of the token.
\<close>

lemma startsWith_append_cases:
  "startsWith (s @ u) t \<longleftrightarrow> startsWith s t \<or> (\<exists>q. q \<noteq> [] \<and> t = s @ q \<and> startsWith u q)"
proof (induction s t rule: startsWith.induct)
  case (1 s)
  show ?case by simp
next
  case (2 c t)
  show ?case by (cases u) auto
next
  case (3 x s c t)
  then show ?case by auto
qed

text \<open>Text that begins with a code unit of no token does not take part in a match.\<close>

lemma match_alternative_cut:
  assumes "r = [] \<or> \<not> token_unit (hd r)" and "s \<noteq> []"
  shows "match_alternative suffix_tokens (s @ r) = match_alternative suffix_tokens s"
proof -
  have "startsWith (s @ r) t = startsWith s t" if t: "t \<in> set suffix_tokens" for t
  proof -
    have "\<not> (\<exists>q. q \<noteq> [] \<and> t = s @ q \<and> startsWith r q)"
    proof
      assume "\<exists>q. q \<noteq> [] \<and> t = s @ q \<and> startsWith r q"
      then obtain q where q: "q \<noteq> []" "t = s @ q" "startsWith r q" by blast
      then obtain c q' where c: "q = c # q'" by (cases q) auto
      with q(3) obtain r' where "r = c # r'" by (cases r) auto
      with assms(1) have "\<not> token_unit c" by simp
      moreover have "token_unit c" using tokens_units [OF t, of c] q(2) c by simp
      ultimately show False by simp
    qed
    then show ?thesis using startsWith_append_cases [of s r t] by blast
  qed
  then show ?thesis by (simp add: suffix_tokens_def)
qed

lemma remove_tokens_cut:
  assumes "r = [] \<or> \<not> token_unit (hd r)"
  shows "k \<le> length s \<Longrightarrow> remove_tokens k (s @ r) = remove_tokens k s @ remove_tokens 0 r"
proof (induction s arbitrary: k)
  case Nil
  then show ?case by simp
next
  case (Cons x s)
  show ?case
  proof (cases k)
    case (Suc k')
    with Cons show ?thesis by simp
  next
    case 0
    have m: "match_alternative suffix_tokens ((x # s) @ r) = match_alternative suffix_tokens (x # s)"
      using assms by (rule match_alternative_cut) simp
    show ?thesis
    proof (cases "match_alternative suffix_tokens (x # s)")
      case None
      with m 0 Cons.IH [of 0] show ?thesis by simp
    next
      case (Some n)
      then have "n - 1 \<le> length s" using match_alternative_length [OF Some] by simp
      with m 0 Some Cons.IH [of "n - 1"] show ?thesis by simp
    qed
  qed
qed

lemma remove_tokens_plain: "\<forall>u \<in> set xs. \<not> token_start u \<Longrightarrow> remove_tokens 0 xs = xs"
  using remove_tokens_prefix [of xs "[]"] by simp

text \<open>
  A token appended to \<open>s\<close> is removed as it stands, and \<open>s\<close> is treated as it is alone,
  unless the token completes a longer one.
\<close>

lemma ends_with_Cons: "ends_with s p \<Longrightarrow> ends_with (x # s) p"
  by (simp add: ends_with_def startsWith_append_cases)

lemma completes_token_Cons: "completes_token s toks \<Longrightarrow> completes_token (x # s) toks"
  by (cases toks) (auto simp: ends_with_Cons)

lemma split2: "s @ q = [a, b] \<Longrightarrow> s \<noteq> [] \<Longrightarrow> q \<noteq> [] \<Longrightarrow> s = [a] \<and> q = [b]"
  by (auto simp: append_eq_Cons_conv)

lemma split4:
  "s @ q = [a, b, c, d] \<Longrightarrow> s \<noteq> [] \<Longrightarrow> q \<noteq> [] \<Longrightarrow>
   (s = [a] \<and> q = [b, c, d]) \<or> (s = [a, b] \<and> q = [c, d]) \<or> (s = [a, b, c] \<and> q = [d])"
  by (auto simp: append_eq_Cons_conv)

lemma split6:
  "s @ q = [a, b, c, d, e, f] \<Longrightarrow> s \<noteq> [] \<Longrightarrow> q \<noteq> [] \<Longrightarrow>
   (s = [a] \<and> q = [b, c, d, e, f]) \<or> (s = [a, b] \<and> q = [c, d, e, f])
   \<or> (s = [a, b, c] \<and> q = [d, e, f]) \<or> (s = [a, b, c, d] \<and> q = [e, f])
   \<or> (s = [a, b, c, d, e] \<and> q = [f])"
  by (auto simp: append_eq_Cons_conv)

lemma token_splits:
  assumes "t' \<in> set suffix_tokens" and "s \<noteq> []" and "q \<noteq> []" and "t' = s @ q"
    and "token_start (hd q)"
  shows "(s = [0x80A1, 0x4EFD] \<and> q = [0x6709, 0x9650, 0x516C, 0x53F8])
        \<or> (s = [0x80A1, 0x4EFD, 0x6709, 0x9650] \<and> q = [0x516C, 0x53F8])
        \<or> (s = [0x6709, 0x9650] \<and> q = [0x516C, 0x53F8])"
proof -
  from assms(1) consider "t' = [0x80A1, 0x4EFD, 0x6709, 0x9650, 0x516C, 0x53F8]"
    | "t' = [0x6709, 0x9650, 0x516C, 0x53F8]" | "t' = [0x516C, 0x53F8]"
    by (auto simp: suffix_tokens_def)
  then show ?thesis
  proof cases
    case 1
    with assms(4) have "s @ q = [0x80A1, 0x4EFD, 0x6709, 0x9650, 0x516C, 0x53F8]" by simp
    from split6 [OF this assms(2,3)] assms(5) show ?thesis
      by (elim disjE conjE) (simp_all add: token_start_def)
  next
    case 2
    with assms(4) have "s @ q = [0x6709, 0x9650, 0x516C, 0x53F8]" by simp
    from split4 [OF this assms(2,3)] assms(5) show ?thesis
      by (elim disjE conjE) (simp_all add: token_start_def)
  next
    case 3
    with assms(4) have "s @ q = [0x516C, 0x53F8]" by simp
    from split2 [OF this assms(2,3)] assms(5) show ?thesis
      by (simp add: token_start_def)
  qed
qed

lemma token_first_unit:
  "t \<in> set suffix_tokens \<Longrightarrow> q \<noteq> [] \<Longrightarrow> startsWith (t @ rest) q \<Longrightarrow> token_start (hd q)"
  by (cases q) (auto simp: suffix_tokens_def token_start_def)

lemma straddling_match:
  assumes "t \<in> set suffix_tokens" and "t' \<in> set suffix_tokens"
    and "s \<noteq> []" and "q \<noteq> []" and "t' = s @ q" and "startsWith (t @ rest) q"
  shows "completes_token s (t # ts)"
proof -
  have "token_start (hd q)" using assms(1,4,6) by (rule token_first_unit)
  with assms(2,3,4,5)
  have "(s = [0x80A1, 0x4EFD] \<and> q = [0x6709, 0x9650, 0x516C, 0x53F8])
        \<or> (s = [0x80A1, 0x4EFD, 0x6709, 0x9650] \<and> q = [0x516C, 0x53F8])
        \<or> (s = [0x6709, 0x9650] \<and> q = [0x516C, 0x53F8])"
    by (rule token_splits)
  moreover have "t = [0x6709, 0x9650, 0x516C, 0x53F8]" if "q = [0x6709, 0x9650, 0x516C, 0x53F8]"
    using that assms(1,6) by (auto simp: suffix_tokens_def)
  moreover have "t = [0x516C, 0x53F8]" if "q = [0x516C, 0x53F8]"
    using that assms(1,6) by (auto simp: suffix_tokens_def)
  ultimately show ?thesis
    by (elim disjE conjE) (simp_all add: ends_with_def)
qed

lemma match_alternative_token_behind:
  assumes "t \<in> set suffix_tokens" and "\<not> completes_token s (t # ts)" and "s \<noteq> []"
  shows "match_alternative suffix_tokens (s @ t @ rest) = match_alternative suffix_tokens s"
proof -
  have "startsWith (s @ t @ rest) t' = startsWith s t'" if t': "t' \<in> set suffix_tokens" for t'
  proof -
    have "\<not> (\<exists>q. q \<noteq> [] \<and> t' = s @ q \<and> startsWith (t @ rest) q)"
    proof
      assume "\<exists>q. q \<noteq> [] \<and> t' = s @ q \<and> startsWith (t @ rest) q"
      then obtain q where "q \<noteq> []" and "t' = s @ q" and "startsWith (t @ rest) q" by blast
      with assms(1) t' assms(3) have "completes_token s (t # ts)" by (rule straddling_match)
      with assms(2) show False by (rule notE)
    qed
    then show ?thesis using startsWith_append_cases [of s "t @ rest" t'] by blast
  qed
  then have "match_alternative suffix_tokens (s @ (t @ rest)) = match_alternative suffix_tokens s"
    by (simp add: suffix_tokens_def)
  then show ?thesis by simp
qed

lemma remove_tokens_token_behind:
  assumes "t \<in> set suffix_tokens"
  shows "\<not> completes_token s (t # ts) \<Longrightarrow> k \<le> length s \<Longrightarrow>
         remove_tokens k (s @ t @ rest) = remove_tokens k s @ remove_tokens 0 rest"
proof (induction s arbitrary: k)
  case Nil
  then show ?case using remove_tokens_token [OF assms, of rest] by simp
next
  case (Cons x s)
  have n: "\<not> completes_token s (t # ts)"
    using Cons.prems(1) completes_token_Cons by blast
  show ?case
  proof (cases k)
    case (Suc k')
    with Cons n show ?thesis by simp
  next
    case 0
    have m: "match_alternative suffix_tokens ((x # s) @ t @ rest)
               = match_alternative suffix_tokens (x # s)"
      using assms Cons.prems(1) by (rule match_alternative_token_behind) simp
    show ?thesis
    proof (cases "match_alternative suffix_tokens (x # s)")
      case None
      with m 0 Cons.IH [OF n, of 0] show ?thesis by simp
    next
      case (Some j)
      then have "j - 1 \<le> length s" using match_alternative_length [OF Some] by simp
      with m 0 Some Cons.IH [OF n, of "j - 1"] show ?thesis by simp
    qed
  qed
qed

lemma tokens_behind_name:
  assumes "set toks \<subseteq> set suffix_tokens" and "\<not> completes_token s toks"
    and "r = [] \<or> \<not> token_unit (hd r)"
  shows "remove_tokens 0 (s @ concat toks @ r) = remove_tokens 0 s @ remove_tokens 0 r"
proof (cases toks)
  case Nil
  then show ?thesis using remove_tokens_cut [OF assms(3), of 0 s] by simp
next
  case (Cons t ts)
  then have t: "t \<in> set suffix_tokens" and ts: "set ts \<subseteq> set suffix_tokens"
    using assms(1) by simp_all
  have "remove_tokens 0 (s @ t @ (concat ts @ r)) = remove_tokens 0 s @ remove_tokens 0 (concat ts @ r)"
    using t assms(2) unfolding Cons by (rule remove_tokens_token_behind) simp
  also have "remove_tokens 0 (concat ts @ r) = remove_tokens 0 r"
    using ts by (rule remove_tokens_concat)
  finally show ?thesis by (simp add: Cons)
qed

text \<open>Removing tokens deletes code units of tokens only.\<close>

lemma remove_tokens_filter:
  assumes "\<And>u. Q u \<Longrightarrow> \<not> token_unit u"
  shows "\<forall>u \<in> set (take k s). token_unit u \<Longrightarrow>
         filter Q (remove_tokens k s) = filter Q (drop k s)"
proof (induction k s rule: remove_tokens.induct)
  case (1 k)
  show ?case by simp
next
  case (2 k c s)
  then show ?case by simp
next
  case (3 c s)
  show ?case
  proof (cases "match_alternative suffix_tokens (c # s)")
    case None
    with 3 show ?thesis by simp
  next
    case (Some n)
    then obtain t where t: "t \<in> set suffix_tokens" and sw: "startsWith (c # s) t" and n: "length t = n"
      using match_alternative_token by blast
    from sw have tk: "take n (c # s) = t" using startsWith_take n by blast
    from t have "n \<noteq> 0" using n by (auto simp: suffix_tokens_def)
    then obtain m where m: "n = Suc m" by (cases n) auto
    with tk have tk': "c # take m s = t" by simp
    have units: "token_unit c \<and> (\<forall>u \<in> set (take m s). token_unit u)"
      using tokens_units [OF t] tk' by auto
    then have "filter Q (remove_tokens (n - 1) s) = filter Q (drop (n - 1) s)"
      using 3(2) [OF Some] m by simp
    moreover have "filter Q (c # s) = filter Q (drop m s)"
    proof -
      have "filter Q (take m s) = []" using units assms by (auto simp: filter_empty_conv)
      moreover have "\<not> Q c" using units assms by blast
      moreover have "filter Q s = filter Q (take m s) @ filter Q (drop m s)"
        by (simp only: filter_append [symmetric] append_take_drop_id)
      ultimately show ?thesis by simp
    qed
    ultimately show ?thesis using Some m by simp
  qed
qed

lemma remove_tokens_keeps:
  assumes "\<And>u. Q u \<Longrightarrow> \<not> token_unit u"
  shows "filter Q (remove_tokens 0 s) = filter Q s"
  using remove_tokens_filter [of Q 0 s] assms by simp

subsection \<open>Removing the parentheticals\<close>

lemma remove_parens_prefix:
  "\<forall>u \<in> set xs. u \<noteq> 0x28 \<Longrightarrow> remove_parens 0 (xs @ ys) = xs @ remove_parens 0 ys"
  by (induction xs) simp_all

lemma remove_parens_plain: "\<forall>u \<in> set xs. u \<noteq> 0x28 \<Longrightarrow> remove_parens 0 xs = xs"
  using remove_parens_prefix [of xs "[]"] by simp

lemma remove_parens_skip: "remove_parens (length xs) (xs @ ys) = remove_parens 0 ys"
  by (induction xs) simp_all

lemma last_close_none: "\<forall>u \<in> set ws. u \<noteq> 0x29 \<Longrightarrow> last_close ws = None"
  by (induction ws) simp_all

lemma last_close_append:
  "\<forall>u \<in> set ws. u \<noteq> 0x29 \<Longrightarrow> last_close (s @ ws) = last_close s"
  by (induction s) (simp_all add: last_close_none)

lemma last_close_length: "last_close s = Some n \<Longrightarrow> n \<le> length s"
  by (induction s arbitrary: n) (auto split: if_splits option.splits)

lemma last_close_one_line: "one_line q \<Longrightarrow> last_close (q @ [0x29]) = Some (Suc (length q))"
  by (induction q) (simp_all add: one_line_def is_line_terminator_def)

lemma last_close_line: "\<not> one_line s \<Longrightarrow> last_close (s @ r) = last_close s"
proof (induction s)
  case Nil
  then show ?case by (simp add: one_line_def)
next
  case (Cons c s)
  show ?case
  proof (cases "is_line_terminator c")
    case True
    then show ?thesis by simp
  next
    case False
    with Cons.prems have "\<not> one_line s" by (simp add: one_line_def)
    then have "last_close (s @ r) = last_close s" by (rule Cons.IH)
    then show ?thesis by simp
  qed
qed

lemma remove_parens_suffix:
  assumes "\<forall>u \<in> set ws. u \<noteq> 0x28 \<and> u \<noteq> 0x29"
  shows "k \<le> length xs \<Longrightarrow> remove_parens k (xs @ ws) = remove_parens k xs @ ws"
proof (induction xs arbitrary: k)
  case Nil
  have "remove_parens 0 ws = ws" using assms by (intro remove_parens_plain) blast
  with Nil show ?case by simp
next
  case (Cons x xs)
  show ?case
  proof (cases k)
    case (Suc k')
    with Cons show ?thesis by simp
  next
    case 0
    have l: "last_close (xs @ ws) = last_close xs"
      using assms by (intro last_close_append) blast
    show ?thesis
    proof (cases "last_close xs")
      case None
      with l 0 Cons.IH [of 0] show ?thesis by simp
    next
      case (Some n)
      then have "n \<le> length xs" by (rule last_close_length)
      with l 0 Some Cons.IH [of n] Cons.IH [of 0] show ?thesis by simp
    qed
  qed
qed

lemma remove_parenthetical:
  assumes "one_line q" and "\<forall>u \<in> set ws. u \<noteq> 0x28 \<and> u \<noteq> 0x29"
  shows "remove_parens 0 ([0x28] @ q @ [0x29] @ ws) = ws"
proof -
  have "last_close ((q @ [0x29]) @ ws) = last_close (q @ [0x29])"
    using assms(2) by (intro last_close_append) blast
  then have "last_close (q @ [0x29] @ ws) = Some (length (q @ [0x29]))"
    using last_close_one_line [OF assms(1)] by simp
  then have "remove_parens 0 ([0x28] @ q @ [0x29] @ ws) = remove_parens (length (q @ [0x29])) ((q @ [0x29]) @ ws)"
    by simp
  also have "\<dots> = remove_parens 0 ws" by (rule remove_parens_skip)
  also have "\<dots> = ws" using assms(2) by (intro remove_parens_plain) blast
  finally show ?thesis .
qed

text \<open>
  Text behind \<open>s\<close> is out of the reach of the parentheses of \<open>s\<close> when none of them is
  pending.
\<close>

lemma remove_parens_closed:
  "\<not> pending_open s \<Longrightarrow> k \<le> length s \<Longrightarrow>
   remove_parens k (s @ r) = remove_parens k s @ remove_parens 0 r"
proof (induction s arbitrary: k)
  case Nil
  then show ?case by simp
next
  case (Cons x s)
  then have n: "\<not> pending_open s" by simp
  show ?case
  proof (cases k)
    case (Suc k')
    with Cons n show ?thesis by simp
  next
    case 0
    show ?thesis
    proof (cases "x = 0x28")
      case False
      with 0 Cons.IH [OF n, of 0] show ?thesis by simp
    next
      case True
      with Cons.prems(1) have "\<not> one_line s" by simp
      then have l: "last_close (s @ r) = last_close s" by (rule last_close_line)
      show ?thesis
      proof (cases "last_close s")
        case None
        with l 0 True Cons.IH [OF n, of 0] show ?thesis by simp
      next
        case (Some j)
        then have "j \<le> length s" by (rule last_close_length)
        with l 0 True Some Cons.IH [OF n, of j] show ?thesis by simp
      qed
    qed
  qed
qed

lemma one_line_filter:
  "one_line (filter (\<lambda>u. u = 0x28 \<or> is_line_terminator u) s) \<longleftrightarrow> one_line s"
  by (auto simp: one_line_def)

lemma pending_open_filter:
  "pending_open (filter (\<lambda>u. u = 0x28 \<or> is_line_terminator u) s) \<longleftrightarrow> pending_open s"
  by (induction s) (simp_all add: one_line_filter)

lemma pending_open_remove_tokens: "pending_open (remove_tokens 0 s) \<longleftrightarrow> pending_open s"
proof -
  let ?Q = "\<lambda>u. u = 0x28 \<or> is_line_terminator u"
  have "filter ?Q (remove_tokens 0 s) = filter ?Q s"
    by (rule remove_tokens_keeps) (auto simp: token_unit_def is_line_terminator_def)
  then show ?thesis
    using pending_open_filter [of "remove_tokens 0 s"] pending_open_filter [of s] by simp
qed

lemma pending_open_no_paren: "\<forall>u \<in> set ws. u \<noteq> 0x28 \<Longrightarrow> \<not> pending_open ws"
  by (induction ws) simp_all

lemma pending_open_append:
  "\<forall>u \<in> set ws. u \<noteq> 0x28 \<Longrightarrow> pending_open (s @ ws) \<longleftrightarrow> pending_open s \<and> one_line ws"
  by (induction s) (auto simp: pending_open_no_paren one_line_def)

subsection \<open>The inner trim is redundant\<close>

lemma blank_no_token: "blank ws \<Longrightarrow> \<forall>u \<in> set ws. \<not> token_unit u"
  by (simp add: blank_def space_not_token)

lemma blank_no_start: "blank ws \<Longrightarrow> \<forall>u \<in> set ws. \<not> token_start u"
  using blank_no_token token_start_unit by blast

lemma blank_no_paren: "blank ws \<Longrightarrow> \<forall>u \<in> set ws. u \<noteq> 0x28 \<and> u \<noteq> 0x29"
  by (simp add: blank_def space_not_paren)

lemma blank_no_open: "blank ws \<Longrightarrow> \<forall>u \<in> set ws. u \<noteq> 0x28"
  by (simp add: blank_def space_not_paren)

lemma blank_cut: "blank ws \<Longrightarrow> ws = [] \<or> \<not> token_unit (hd ws)"
  using blank_no_token by (cases ws) auto

lemma blank_append: "blank xs \<Longrightarrow> blank ys \<Longrightarrow> blank (xs @ ys)"
  by (auto simp: blank_def)

lemma remove_tokens_blank: "blank ws \<Longrightarrow> remove_tokens 0 ws = ws"
  using blank_no_start by (rule remove_tokens_plain)

lemma removals_blank_frame:
  assumes "blank wl" and "blank wr"
  shows "remove_parens 0 (remove_tokens 0 (wl @ m @ wr))
           = wl @ remove_parens 0 (remove_tokens 0 m) @ wr"
proof -
  have "remove_tokens 0 (wl @ (m @ wr)) = wl @ remove_tokens 0 (m @ wr)"
    using blank_no_start [OF assms(1)] by (rule remove_tokens_prefix)
  also have "remove_tokens 0 (m @ wr) = remove_tokens 0 m @ remove_tokens 0 wr"
    using blank_cut [OF assms(2)] by (rule remove_tokens_cut) simp
  also have "remove_tokens 0 wr = wr" using assms(2) by (rule remove_tokens_blank)
  finally have t: "remove_tokens 0 (wl @ m @ wr) = wl @ remove_tokens 0 m @ wr" .
  have "remove_parens 0 (wl @ (remove_tokens 0 m @ wr)) = wl @ remove_parens 0 (remove_tokens 0 m @ wr)"
    using blank_no_open [OF assms(1)] by (rule remove_parens_prefix)
  also have "remove_parens 0 (remove_tokens 0 m @ wr) = remove_parens 0 (remove_tokens 0 m) @ wr"
    using blank_no_paren [OF assms(2)] by (rule remove_parens_suffix) simp
  finally show ?thesis by (simp only: t)
qed

lemma key_blank_frame:
  assumes "blank wl" and "blank wr"
  shows "trim (remove_parens 0 (remove_tokens 0 (wl @ m @ wr)))
           = trim (remove_parens 0 (remove_tokens 0 m))"
proof -
  have "trim (remove_parens 0 (remove_tokens 0 (wl @ m @ wr)))
          = trim (wl @ (remove_parens 0 (remove_tokens 0 m) @ wr))"
    using assms by (simp only: removals_blank_frame)
  also have "\<dots> = trim (remove_parens 0 (remove_tokens 0 m) @ wr)"
    using assms(1) by (rule trim_blank_prefix)
  also have "\<dots> = trim (remove_parens 0 (remove_tokens 0 m))"
    using assms(2) by (rule trim_blank_suffix)
  finally show ?thesis .
qed

lemma inner_trim_redundant:
  "trim (remove_parens 0 (remove_tokens 0 (trim s))) = trim (remove_parens 0 (remove_tokens 0 s))"
proof -
  obtain wl wr where wl: "blank wl" and wr: "blank wr" and s: "s = wl @ trim s @ wr"
    using trim_decompose by blast
  have "trim (remove_parens 0 (remove_tokens 0 s))
          = trim (remove_parens 0 (remove_tokens 0 (wl @ trim s @ wr)))"
    using s by simp
  also have "\<dots> = trim (remove_parens 0 (remove_tokens 0 (trim s)))"
    using wl wr by (rule key_blank_frame)
  finally show ?thesis by simp
qed

lemma normalizeName_alt:
  "normalizeName toLowerCase x = trim (remove_parens 0 (remove_tokens 0 (toLowerCase x)))"
  by (simp add: normalizeName_def inner_trim_redundant)

subsection \<open>Variants of a lower-cased name\<close>

lemma key_with_tokens:
  assumes "set toks \<subseteq> set suffix_tokens" and "\<not> completes_token s toks"
    and "blank ws1" and "blank ws2"
  shows "trim (remove_parens 0 (remove_tokens 0 (ws1 @ s @ concat toks @ ws2)))
           = trim (remove_parens 0 (remove_tokens 0 s))"
proof -
  have "remove_tokens 0 (s @ concat toks @ ws2) = remove_tokens 0 s @ remove_tokens 0 ws2"
    using assms(1,2) blank_cut [OF assms(4)] by (rule tokens_behind_name)
  also have "remove_tokens 0 ws2 = ws2" using assms(4) by (rule remove_tokens_blank)
  finally have m: "remove_tokens 0 (s @ concat toks @ ws2) = remove_tokens 0 s @ ws2" .
  have "remove_tokens 0 (ws1 @ (s @ concat toks @ ws2)) = ws1 @ remove_tokens 0 (s @ concat toks @ ws2)"
    using blank_no_start [OF assms(3)] by (rule remove_tokens_prefix)
  with m have t: "remove_tokens 0 (ws1 @ s @ concat toks @ ws2) = ws1 @ remove_tokens 0 s @ ws2"
    by simp
  have "remove_parens 0 (ws1 @ (remove_tokens 0 s @ ws2)) = ws1 @ remove_parens 0 (remove_tokens 0 s @ ws2)"
    using blank_no_open [OF assms(3)] by (rule remove_parens_prefix)
  also have "remove_parens 0 (remove_tokens 0 s @ ws2) = remove_parens 0 (remove_tokens 0 s) @ ws2"
    using blank_no_paren [OF assms(4)] by (rule remove_parens_suffix) simp
  finally have "trim (remove_parens 0 (remove_tokens 0 (ws1 @ s @ concat toks @ ws2)))
                  = trim (ws1 @ (remove_parens 0 (remove_tokens 0 s) @ ws2))"
    by (simp only: t)
  also have "\<dots> = trim (remove_parens 0 (remove_tokens 0 s) @ ws2)"
    using assms(3) by (rule trim_blank_prefix)
  also have "\<dots> = trim (remove_parens 0 (remove_tokens 0 s))"
    using assms(4) by (rule trim_blank_suffix)
  finally show ?thesis .
qed

text \<open>The variant with a parenthetical after the removal of the tokens.\<close>

lemma tokens_of_variant:
  assumes "set toks \<subseteq> set suffix_tokens" and "\<not> completes_token s toks"
    and "blank ws1" and "blank ws2" and "blank ws3"
  shows "remove_tokens 0 (ws1 @ s @ concat toks @ ws2 @ [0x28] @ p @ [0x29] @ ws3)
           = ws1 @ (remove_tokens 0 s @ ws2) @ ([0x28] @ remove_tokens 0 p @ [0x29] @ ws3)"
proof -
  let ?r = "ws2 @ [0x28] @ p @ [0x29] @ ws3"
  have cut: "?r = [] \<or> \<not> token_unit (hd ?r)"
    using blank_no_token [OF assms(4)] by (cases ws2) (auto simp: token_unit_def)
  have pre2: "\<forall>u \<in> set (ws2 @ [0x28]). \<not> token_start u"
    using blank_no_start [OF assms(4)] by (auto simp: token_start_def)
  have close: "(0x29 # ws3) = [] \<or> \<not> token_unit (hd (0x29 # ws3))"
    by (simp add: token_unit_def)
  have tail: "\<forall>u \<in> set (0x29 # ws3). \<not> token_start u"
    using blank_no_start [OF assms(5)] by (auto simp: token_start_def)
  have "remove_tokens 0 ((ws2 @ [0x28]) @ (p @ 0x29 # ws3))
          = (ws2 @ [0x28]) @ remove_tokens 0 (p @ 0x29 # ws3)"
    using pre2 by (rule remove_tokens_prefix)
  also have "remove_tokens 0 (p @ 0x29 # ws3) = remove_tokens 0 p @ remove_tokens 0 (0x29 # ws3)"
    using close by (rule remove_tokens_cut) simp
  also have "remove_tokens 0 (0x29 # ws3) = 0x29 # ws3"
    using tail by (rule remove_tokens_plain)
  finally have r: "remove_tokens 0 ?r = ws2 @ [0x28] @ remove_tokens 0 p @ [0x29] @ ws3" by simp
  have "remove_tokens 0 (s @ concat toks @ ?r) = remove_tokens 0 s @ remove_tokens 0 ?r"
    using assms(1,2) cut by (rule tokens_behind_name)
  moreover have "remove_tokens 0 (ws1 @ (s @ concat toks @ ?r)) = ws1 @ remove_tokens 0 (s @ concat toks @ ?r)"
    using blank_no_start [OF assms(3)] by (rule remove_tokens_prefix)
  ultimately show ?thesis using r by simp
qed

text \<open>
  The parenthetical behind a text \<open>m\<close> is removed alone when no parenthesis of \<open>m\<close>
  reaches it.
\<close>

lemma parens_of_variant:
  assumes "blank ws2" and "blank ws3" and "one_line q"
    and "pending_open m \<longrightarrow> \<not> one_line ws2"
  shows "remove_parens 0 ((m @ ws2) @ ([0x28] @ q @ [0x29] @ ws3)) = remove_parens 0 m @ ws2 @ ws3"
proof -
  have "pending_open (m @ ws2) \<longleftrightarrow> pending_open m \<and> one_line ws2"
    using blank_no_open [OF assms(1)] by (rule pending_open_append)
  then have closed: "\<not> pending_open (m @ ws2)" using assms(4) by simp
  have "remove_parens 0 ((m @ ws2) @ ([0x28] @ q @ [0x29] @ ws3))
          = remove_parens 0 (m @ ws2) @ remove_parens 0 ([0x28] @ q @ [0x29] @ ws3)"
    using closed by (rule remove_parens_closed) simp
  also have "remove_parens 0 ([0x28] @ q @ [0x29] @ ws3) = ws3"
    using assms(3) blank_no_paren [OF assms(2)] by (rule remove_parenthetical)
  also have "remove_parens 0 (m @ ws2) = remove_parens 0 m @ ws2"
    using blank_no_paren [OF assms(1)] by (rule remove_parens_suffix) simp
  finally show ?thesis by simp
qed

text \<open>
  A pending parenthesis of \<open>m\<close> swallows the parenthetical behind \<open>m\<close>. When it is closed
  with white space in \<open>m\<close>, what it swallows is white space.
\<close>

lemma pending_split:
  "pending_open s \<Longrightarrow>
   \<exists>u v. s = u @ 0x28 # v \<and> \<not> pending_open u \<and> one_line v \<and> pending_from s = 0x28 # v"
proof (induction s)
  case Nil
  then show ?case by simp
next
  case (Cons c s)
  show ?case
  proof (cases "c = 0x28 \<and> one_line s")
    case True
    then have "c # s = [] @ 0x28 # s \<and> \<not> pending_open [] \<and> one_line s
               \<and> pending_from (c # s) = 0x28 # s"
      by simp
    then show ?thesis by blast
  next
    case False
    with Cons.prems have "pending_open s" by auto
    then obtain u v where s: "s = u @ 0x28 # v" and u: "\<not> pending_open u" and v: "one_line v"
      and p: "pending_from s = 0x28 # v"
      using Cons.IH by blast
    have "\<not> (c = 0x28 \<and> one_line u)"
      using False s v by (auto simp: one_line_def is_line_terminator_def)
    with u have "\<not> pending_open (c # u)" by simp
    moreover have "c # s = (c # u) @ 0x28 # v" using s by simp
    moreover have "pending_from (c # s) = 0x28 # v" using False p by auto
    ultimately show ?thesis using v by blast
  qed
qed

lemma last_close_split: "last_close v = Some n \<Longrightarrow> \<exists>v1. v = v1 @ 0x29 # drop n v"
proof (induction v arbitrary: n)
  case Nil
  then show ?case by simp
next
  case (Cons c v)
  show ?case
  proof (cases "last_close v")
    case None
    with Cons.prems have "c = 0x29 \<and> n = 1" by (auto split: if_splits)
    then have "c # v = [] @ 0x29 # drop n (c # v)" by simp
    then show ?thesis by blast
  next
    case (Some m)
    with Cons.prems have n: "n = Suc m" by (auto split: if_splits)
    from Cons.IH [OF Some] obtain v1 where "v = v1 @ 0x29 # drop m v" by blast
    then have "c # v = (c # v1) @ 0x29 # drop n (c # v)" using n by simp
    then show ?thesis by blast
  qed
qed

lemma one_line_append: "one_line (xs @ ys) \<longleftrightarrow> one_line xs \<and> one_line ys"
  by (auto simp: one_line_def)

lemma one_line_Cons: "one_line (c # s) \<longleftrightarrow> \<not> is_line_terminator c \<and> one_line s"
  by (simp add: one_line_def)

lemma parens_of_closed_variant:
  assumes "blank ws2" and "blank ws3" and "one_line q"
    and "pending_open m" and "one_line ws2" and "closed_with_blank m"
  shows "\<exists>k w. blank w \<and> remove_parens 0 m = k @ w
              \<and> remove_parens 0 ((m @ ws2) @ ([0x28] @ q @ [0x29] @ ws3)) = k @ ws3"
proof -
  from pending_split [OF assms(4)] obtain u v where m: "m = u @ 0x28 # v"
    and u: "\<not> pending_open u" and v: "one_line v" and p: "pending_from m = 0x28 # v"
    by blast
  from assms(6) p obtain n where n: "last_close v = Some n" and wn: "blank (drop n v)"
    by (auto simp: closed_with_blank_def split: option.splits)
  define w where "w = drop n v"
  from last_close_split [OF n] obtain v1 where v1: "v = v1 @ 0x29 # w"
    unfolding w_def by blast
  have w: "blank w" using wn by (simp add: w_def)
  have "one_line (v1 @ 0x29 # w)" using v v1 by simp
  then have lines: "one_line v1 \<and> one_line w"
    by (simp add: one_line_append one_line_Cons)
  let ?p = "v1 @ [0x29] @ w @ ws2 @ [0x28] @ q"
  have long: "one_line ?p"
    using lines assms(3,5) by (simp add: one_line_append one_line_Cons is_line_terminator_def)
  have m1: "m = u @ ([0x28] @ v1 @ [0x29] @ w)" using m v1 by simp
  have m2: "(m @ ws2) @ ([0x28] @ q @ [0x29] @ ws3) = u @ ([0x28] @ ?p @ [0x29] @ ws3)"
    using m v1 by simp
  have "remove_parens 0 (u @ ([0x28] @ v1 @ [0x29] @ w))
          = remove_parens 0 u @ remove_parens 0 ([0x28] @ v1 @ [0x29] @ w)"
    using u by (rule remove_parens_closed) simp
  also have "remove_parens 0 ([0x28] @ v1 @ [0x29] @ w) = w"
    using lines blank_no_paren [OF w] by (intro remove_parenthetical) simp_all
  finally have own: "remove_parens 0 m = remove_parens 0 u @ w"
    by (simp only: m1)
  have "remove_parens 0 (u @ ([0x28] @ ?p @ [0x29] @ ws3))
          = remove_parens 0 u @ remove_parens 0 ([0x28] @ ?p @ [0x29] @ ws3)"
    using u by (rule remove_parens_closed) simp
  also have "remove_parens 0 ([0x28] @ ?p @ [0x29] @ ws3) = ws3"
    using long blank_no_paren [OF assms(2)] by (rule remove_parenthetical)
  finally have "remove_parens 0 ((m @ ws2) @ ([0x28] @ q @ [0x29] @ ws3)) = remove_parens 0 u @ ws3"
    by (simp only: m2)
  with own w show ?thesis by blast
qed

lemma key_with_parenthetical:
  assumes "set toks \<subseteq> set suffix_tokens" and "\<not> completes_token s toks"
    and "blank ws1" and "blank ws2" and "blank ws3" and "one_line p"
    and "pending_open s \<and> one_line ws2 \<longrightarrow> closed_with_blank (remove_tokens 0 s)"
  shows "trim (remove_parens 0 (remove_tokens 0
            (ws1 @ s @ concat toks @ ws2 @ [0x28] @ p @ [0x29] @ ws3)))
           = trim (remove_parens 0 (remove_tokens 0 s))"
proof -
  let ?m = "remove_tokens 0 s"
  let ?q = "remove_tokens 0 p"
  have q: "one_line ?q"
    using assms(6) set_remove_tokens [of 0 p] by (auto simp: one_line_def)
  have t: "remove_tokens 0 (ws1 @ s @ concat toks @ ws2 @ [0x28] @ p @ [0x29] @ ws3)
             = ws1 @ (?m @ ws2) @ ([0x28] @ ?q @ [0x29] @ ws3)"
    using assms(1,2,3,4,5) by (rule tokens_of_variant)
  have "\<exists>k wa wb. blank wa \<and> blank wb \<and> remove_parens 0 ?m = k @ wa
              \<and> remove_parens 0 ((?m @ ws2) @ ([0x28] @ ?q @ [0x29] @ ws3)) = k @ wb"
  proof (cases "pending_open s \<and> one_line ws2")
    case True
    then have "pending_open ?m" and "one_line ws2" and "closed_with_blank ?m"
      using assms(7) by (simp_all add: pending_open_remove_tokens)
    with assms(4,5) q obtain k w where "blank w" and "remove_parens 0 ?m = k @ w"
      and "remove_parens 0 ((?m @ ws2) @ ([0x28] @ ?q @ [0x29] @ ws3)) = k @ ws3"
      using parens_of_closed_variant by blast
    with assms(5) show ?thesis by blast
  next
    case False
    then have "pending_open ?m \<longrightarrow> \<not> one_line ws2"
      by (simp add: pending_open_remove_tokens)
    with assms(4,5) q
    have "remove_parens 0 ((?m @ ws2) @ ([0x28] @ ?q @ [0x29] @ ws3))
            = remove_parens 0 ?m @ (ws2 @ ws3)"
      by (simp only: parens_of_variant)
    moreover have "blank []" by (simp add: blank_def)
    moreover have "remove_parens 0 ?m = remove_parens 0 ?m @ []" by simp
    moreover have "blank (ws2 @ ws3)" using assms(4,5) by (rule blank_append)
    ultimately show ?thesis by blast
  qed
  then obtain k wa wb where wa: "blank wa" and wb: "blank wb" and own: "remove_parens 0 ?m = k @ wa"
    and var: "remove_parens 0 ((?m @ ws2) @ ([0x28] @ ?q @ [0x29] @ ws3)) = k @ wb"
    by blast
  have "remove_parens 0 (ws1 @ ((?m @ ws2) @ ([0x28] @ ?q @ [0x29] @ ws3)))
          = ws1 @ remove_parens 0 ((?m @ ws2) @ ([0x28] @ ?q @ [0x29] @ ws3))"
    using blank_no_open [OF assms(3)] by (rule remove_parens_prefix)
  then have "trim (remove_parens 0 (remove_tokens 0
                (ws1 @ s @ concat toks @ ws2 @ [0x28] @ p @ [0x29] @ ws3)))
               = trim (ws1 @ (k @ wb))"
    by (simp only: t var)
  also have "\<dots> = trim (k @ wb)" using assms(3) by (rule trim_blank_prefix)
  also have "\<dots> = trim k" using wb by (rule trim_blank_suffix)
  also have "\<dots> = trim (k @ wa)" using wa by (rule trim_blank_suffix [symmetric])
  finally show ?thesis by (simp only: own)
qed

subsection \<open>Lower-casing a variant\<close>

lemma lower_empty: "keeps_separators toLowerCase \<Longrightarrow> toLowerCase [] = []"
  unfolding keeps_separators_def by blast

lemma lower_blank_front:
  "keeps_separators toLowerCase \<Longrightarrow> blank ws \<Longrightarrow> toLowerCase (ws @ x) = ws @ toLowerCase x"
  unfolding keeps_separators_def by blast

lemma lower_blank_back:
  "keeps_separators toLowerCase \<Longrightarrow> blank ws \<Longrightarrow> toLowerCase (x @ ws) = toLowerCase x @ ws"
  unfolding keeps_separators_def by blast

lemma lower_separator:
  "keeps_separators toLowerCase \<Longrightarrow> token_unit c \<or> c = 0x28 \<or> c = 0x29 \<Longrightarrow>
   toLowerCase (x @ c # y) = toLowerCase x @ c # toLowerCase y"
  unfolding keeps_separators_def by blast

lemma lower_tokens:
  assumes "keeps_separators toLowerCase"
  shows "\<forall>u \<in> set ts. token_unit u \<Longrightarrow> toLowerCase (x @ ts) = toLowerCase x @ ts"
proof (induction ts arbitrary: x)
  case Nil
  show ?case by simp
next
  case (Cons c ts)
  then have c: "token_unit c" and ts: "\<forall>u \<in> set ts. token_unit u" by simp_all
  have "toLowerCase (x @ c # ts) = toLowerCase x @ c # toLowerCase ts"
    using assms by (rule lower_separator) (simp add: c)
  moreover have "toLowerCase ([] @ ts) = toLowerCase [] @ ts" using ts by (rule Cons.IH)
  moreover have "toLowerCase [] = []" using assms by (rule lower_empty)
  ultimately show ?case by simp
qed

lemma concat_token_units:
  "set toks \<subseteq> set suffix_tokens \<Longrightarrow> \<forall>u \<in> set (concat toks). token_unit u"
  using tokens_units by auto

lemma lower_with_tokens:
  assumes "keeps_separators toLowerCase" and "set toks \<subseteq> set suffix_tokens"
    and "blank ws1" and "blank ws2"
  shows "toLowerCase (ws1 @ x @ concat toks @ ws2) = ws1 @ toLowerCase x @ concat toks @ ws2"
proof -
  have "toLowerCase ((ws1 @ x @ concat toks) @ ws2) = toLowerCase (ws1 @ x @ concat toks) @ ws2"
    using assms(1,4) by (rule lower_blank_back)
  moreover have "toLowerCase (ws1 @ (x @ concat toks)) = ws1 @ toLowerCase (x @ concat toks)"
    using assms(1,3) by (rule lower_blank_front)
  moreover have "toLowerCase (x @ concat toks) = toLowerCase x @ concat toks"
    using assms(1) concat_token_units [OF assms(2)] by (rule lower_tokens)
  ultimately show ?thesis by simp
qed

lemma lower_with_parenthetical:
  assumes "keeps_separators toLowerCase" and "set toks \<subseteq> set suffix_tokens"
    and "blank ws1" and "blank ws2" and "blank ws3"
  shows "toLowerCase (ws1 @ x @ concat toks @ ws2 @ [0x28] @ p @ [0x29] @ ws3)
           = ws1 @ toLowerCase x @ concat toks @ ws2 @ [0x28] @ toLowerCase p @ [0x29] @ ws3"
proof -
  have "toLowerCase ([] @ ws3) = toLowerCase [] @ ws3"
    using assms(1,5) by (rule lower_blank_back)
  moreover have "toLowerCase [] = []" using assms(1) by (rule lower_empty)
  ultimately have w: "toLowerCase ws3 = ws3" by simp
  have "toLowerCase ((ws1 @ x @ concat toks @ ws2) @ 0x28 # (p @ 0x29 # ws3))
          = toLowerCase (ws1 @ x @ concat toks @ ws2) @ 0x28 # toLowerCase (p @ 0x29 # ws3)"
    using assms(1) by (rule lower_separator) simp
  moreover have "toLowerCase (p @ 0x29 # ws3) = toLowerCase p @ 0x29 # toLowerCase ws3"
    using assms(1) by (rule lower_separator) simp
  ultimately show ?thesis
    using w lower_with_tokens [OF assms(1,2,3,4), of x] by simp
qed

lemma normalizeCompanyName_string:
  "toLowerCase [] = [] \<Longrightarrow>
   normalizeCompanyName toLowerCase (JStr x) = Inr (normalizeName toLowerCase x)"
  by (simp add: normalizeCompanyName_def normalizeName_def trim_def)

lemma basic_latin_keeps_separators: "keeps_separators basic_latin_lower"
proof -
  have "map lower_unit ws = ws" if "blank ws" for ws
    using that unfolding blank_def
    by (induction ws) (auto simp: is_space_def lower_unit_def)
  moreover have "lower_unit c = c" if "token_unit c \<or> c = 0x28 \<or> c = 0x29" for c
    using that by (auto simp: token_unit_def lower_unit_def)
  ultimately show ?thesis
    by (simp add: keeps_separators_def basic_latin_lower_def)
qed

text \<open>
  C3, as stated, fails. The suffix pattern holds the three Chinese tokens only, so
  \<open>Co., Ltd.\<close> stays in the key and the two names of the specification's example get
  different keys. A token appended to a name is not always removed as such: U+516C U+53F8
  behind a name that ends with U+6709 U+9650 is removed together with these two code
  units. And a parenthetical behind a name that holds an opening parenthesis in its last
  line is removed together with the text from that parenthesis on.
\<close>

theorem normalize_variants_with_different_keys:
  "normalizeCompanyName basic_latin_lower (JStr (ascii ''ABC Co., Ltd. (Taiwan)''))
     = Inr (ascii ''abc co., ltd.'')
   \<and> normalizeCompanyName basic_latin_lower (JStr (ascii ''abc co. (taiwan)'')) = Inr (ascii ''abc co.'')
   \<and> normalizeCompanyName basic_latin_lower (JStr (ascii ''ABC Co., Ltd. (Taiwan)''))
       \<noteq> normalizeCompanyName basic_latin_lower (JStr (ascii ''abc co. (taiwan)''))
   \<and> normalizeCompanyName basic_latin_lower (JStr [0x53F0, 0x7A4D, 0x6709, 0x9650])
       = Inr [0x53F0, 0x7A4D, 0x6709, 0x9650]
   \<and> normalizeCompanyName basic_latin_lower (JStr ([0x53F0, 0x7A4D, 0x6709, 0x9650] @ [0x516C, 0x53F8]))
       = Inr [0x53F0, 0x7A4D]
   \<and> normalizeCompanyName basic_latin_lower (JStr (ascii ''abc (x'')) = Inr (ascii ''abc (x'')
   \<and> normalizeCompanyName basic_latin_lower (JStr (ascii ''abc (x'' @ ascii '' (y)'')) = Inr (ascii ''abc'')"
  by (simp add: normalizeCompanyName_def normalizeName_def ascii_def basic_latin_lower_def lower_unit_def trim_def
  is_space_def is_line_terminator_def suffix_tokens_def)

text \<open>
  C3, amended. Let \<open>toLowerCase\<close> be the engine's lower-casing, of which only
  \<open>keeps_separators\<close> is used. A name \<open>b\<close> has the join key of every variant that is
  made of a name \<open>b'\<close> with the same lower-case form, white space around it (\<open>ws1\<close>,
  \<open>ws2\<close>) and suffix tokens of the pattern appended to it (\<open>toks\<close>), provided the first
  appended token does not complete a longer token with the end of the lower-cased name.
  The same holds with a parenthetical \<open>(p)\<close> without a line break and white space \<open>ws3\<close>
  behind the variant, provided that an opening parenthesis which is pending in the
  lower-cased name and separated from the parenthetical by no line break (in \<open>ws2\<close>) is
  closed in the name, with white space and suffix tokens only behind the last closing
  parenthesis.
\<close>

theorem normalize_name_variants:
  assumes "keeps_separators toLowerCase"
    and "toLowerCase b' = toLowerCase b"
    and "set toks \<subseteq> set suffix_tokens" and "\<not> completes_token (toLowerCase b) toks"
    and "blank ws1" and "blank ws2" and "blank ws3" and "one_line (toLowerCase p)"
  shows "normalizeCompanyName toLowerCase (JStr (ws1 @ b' @ concat toks @ ws2))
           = normalizeCompanyName toLowerCase (JStr b)
       \<and> ((pending_open (toLowerCase b) \<and> one_line ws2
             \<longrightarrow> closed_with_blank (remove_tokens 0 (toLowerCase b))) \<longrightarrow>
            normalizeCompanyName toLowerCase
              (JStr (ws1 @ b' @ concat toks @ ws2 @ [0x28] @ p @ [0x29] @ ws3))
              = normalizeCompanyName toLowerCase (JStr b))"
proof (intro conjI impI)
  have e: "toLowerCase [] = []" using assms(1) by (rule lower_empty)
  have "normalizeName toLowerCase (ws1 @ b' @ concat toks @ ws2)
          = trim (remove_parens 0 (remove_tokens 0 (ws1 @ toLowerCase b @ concat toks @ ws2)))"
    using lower_with_tokens [OF assms(1,3,5,6), of b'] assms(2)
    by (simp only: normalizeName_alt)
  also have "\<dots> = trim (remove_parens 0 (remove_tokens 0 (toLowerCase b)))"
    using assms(3,4,5,6) by (rule key_with_tokens)
  finally show "normalizeCompanyName toLowerCase (JStr (ws1 @ b' @ concat toks @ ws2))
                  = normalizeCompanyName toLowerCase (JStr b)"
    by (simp only: normalizeCompanyName_string [of toLowerCase, OF e] normalizeName_alt)
  assume open_closed: "pending_open (toLowerCase b) \<and> one_line ws2
                         \<longrightarrow> closed_with_blank (remove_tokens 0 (toLowerCase b))"
  have "normalizeName toLowerCase (ws1 @ b' @ concat toks @ ws2 @ [0x28] @ p @ [0x29] @ ws3)
          = trim (remove_parens 0 (remove_tokens 0
              (ws1 @ toLowerCase b @ concat toks @ ws2 @ [0x28] @ toLowerCase p @ [0x29] @ ws3)))"
    using lower_with_parenthetical [OF assms(1,3,5,6,7), of b' p] assms(2)
    by (simp only: normalizeName_alt)
  also have "\<dots> = trim (remove_parens 0 (remove_tokens 0 (toLowerCase b)))"
    using assms(3,4,5,6,7,8) open_closed by (rule key_with_parenthetical)
  finally show "normalizeCompanyName toLowerCase
                  (JStr (ws1 @ b' @ concat toks @ ws2 @ [0x28] @ p @ [0x29] @ ws3))
                  = normalizeCompanyName toLowerCase (JStr b)"
    by (simp only: normalizeCompanyName_string [of toLowerCase, OF e] normalizeName_alt)
qed

theorem normalize_name_variants_witness:
  "normalizeCompanyName basic_latin_lower
     (JStr (ascii ''ABC (TW)'' @ [0x80A1, 0x4EFD, 0x6709, 0x9650, 0x516C, 0x53F8] @ ascii '' (Taiwan)''))
   = Inr (ascii ''abc'')
   \<and> normalizeCompanyName basic_latin_lower
       (JStr (ascii ''  A(b)c'' @ [0x516C, 0x53F8] @ ascii '' '')) = Inr (ascii ''ac'')"
proof -
  let ?L = basic_latin_lower
  let ?t1 = "[0x80A1, 0x4EFD, 0x6709, 0x9650, 0x516C, 0x53F8] :: jstring"
  let ?t3 = "[0x516C, 0x53F8] :: jstring"
  note ev = ascii_def basic_latin_lower_def lower_unit_def
  have c1: "?L (ascii ''ABC (TW)'') = ?L (ascii ''abc (tw)'')"
    and c2: "?L (ascii ''A(b)c'') = ?L (ascii ''a(b)c'')"
    by (simp_all add: ev)
  have t1: "set [?t1] \<subseteq> set suffix_tokens" and t3: "set [?t3] \<subseteq> set suffix_tokens"
    by (simp_all add: suffix_tokens_def)
  have n1: "\<not> completes_token (?L (ascii ''abc (tw)'')) [?t1]"
    and n3: "\<not> completes_token (?L (ascii ''a(b)c'')) [?t3]"
    by (simp_all add: ends_with_def ev)
  have w0: "blank []" and w1: "blank (ascii '' '')" and w2: "blank (ascii ''  '')"
    by (simp_all add: blank_def is_space_def ascii_def)
  have p: "one_line (?L (ascii ''Taiwan''))"
    by (simp add: one_line_def is_line_terminator_def ev)
  have o: "pending_open (?L (ascii ''abc (tw)'')) \<and> one_line (ascii '' '')
           \<longrightarrow> closed_with_blank (remove_tokens 0 (?L (ascii ''abc (tw)'')))"
    by (simp add: closed_with_blank_def one_line_def is_line_terminator_def blank_def
          suffix_tokens_def ev)
  have k1: "normalizeCompanyName ?L (JStr (ascii ''abc (tw)'')) = Inr (ascii ''abc'')"
    and k2: "normalizeCompanyName ?L (JStr (ascii ''a(b)c'')) = Inr (ascii ''ac'')"
    by (simp_all add: normalizeCompanyName_def normalizeName_def trim_def is_space_def
          is_line_terminator_def suffix_tokens_def ev)
  have "(pending_open (?L (ascii ''abc (tw)'')) \<and> one_line (ascii '' '')
           \<longrightarrow> closed_with_blank (remove_tokens 0 (?L (ascii ''abc (tw)'')))) \<longrightarrow>
        normalizeCompanyName ?L (JStr ([] @ ascii ''ABC (TW)'' @ concat [?t1] @ ascii '' '' @ [0x28]
                                        @ ascii ''Taiwan'' @ [0x29] @ []))
          = normalizeCompanyName ?L (JStr (ascii ''abc (tw)''))"
    using normalize_name_variants [OF basic_latin_keeps_separators c1 t1 n1 w0 w1 w0 p]
    by (rule conjunct2)
  from this o have "normalizeCompanyName ?L (JStr ([] @ ascii ''ABC (TW)'' @ concat [?t1] @ ascii '' '' @ [0x28]
                                        @ ascii ''Taiwan'' @ [0x29] @ []))
          = normalizeCompanyName ?L (JStr (ascii ''abc (tw)''))"
    by (rule mp)
  then have first: "normalizeCompanyName ?L (JStr (ascii ''ABC (TW)'' @ ?t1 @ ascii '' (Taiwan)''))
                      = Inr (ascii ''abc'')"
    by (simp add: k1) (simp add: ascii_def)
  have "normalizeCompanyName ?L (JStr (ascii ''  '' @ ascii ''A(b)c'' @ concat [?t3] @ ascii '' ''))
          = normalizeCompanyName ?L (JStr (ascii ''a(b)c''))"
    using normalize_name_variants [OF basic_latin_keeps_separators c2 t3 n3 w2 w1 w0 p]
    by (rule conjunct1)
  then have second: "normalizeCompanyName ?L (JStr (ascii ''  A(b)c'' @ ?t3 @ ascii '' ''))
                       = Inr (ascii ''ac'')"
    by (simp add: k2) (simp add: ascii_def)
  from first second show ?thesis by (intro conjI)
qed

end
